theory Spec2Isabelle
  imports Complex_Main "HOL-Library.Monad_Syntax"
begin

section \<open>Data model (types.ts)\<close>

text \<open>
  JavaScript numbers are modelled as real numbers: the arithmetic of the solver is read
  over the reals, without rounding, overflow to infinity or NaN.  An optional field is an
  \<open>option\<close>, \<open>None\<close> standing for \<open>undefined\<close>.
\<close>

datatype ComponentType =
  WIRE | RESISTOR | BATTERY | LIGHTBULB | SWITCH | VOLTMETER | AMMETER | CAPACITOR | INDUCTOR

record Point =
  px :: real
  py :: real
  pid :: string

record Properties =
  resistance :: "real option"
  voltage :: "real option"
  isOpen :: "bool option"
  capacitance :: "real option"
  inductance :: "real option"

record CircuitComponent =
  cid :: string
  ctype :: ComponentType
  p1 :: Point
  p2 :: Point
  properties :: Properties
  current :: real
  voltageDrop :: real
  p1Potential :: real
  p2Potential :: real
  prevCurrent :: "real option"
  prevP1Potential :: "real option"
  prevP2Potential :: "real option"

section \<open>JavaScript idioms used by the solver\<close>

text \<open>
  \<open>v || d\<close> on an optional number: the default \<open>d\<close> is taken when \<open>v\<close> is
  \<open>undefined\<close> and also when it is \<open>0\<close> (both are falsy).
\<close>

definition or_default :: "real option \<Rightarrow> real \<Rightarrow> real" where
  "or_default v d = (case v of None \<Rightarrow> d | Some r \<Rightarrow> if r = 0 then d else r)"

text \<open>The truth value of an optional boolean: \<open>undefined\<close> is falsy.\<close>

definition truthy :: "bool option \<Rightarrow> bool" where
  "truthy b = (case b of None \<Rightarrow> False | Some v \<Rightarrow> v)"

text \<open>\<open>Math.hypot\<close> on two arguments.\<close>

definition hypot :: "real \<Rightarrow> real \<Rightarrow> real" where
  "hypot a b = sqrt (a\<^sup>2 + b\<^sup>2)"

text \<open>
  A counted \<open>for\<close> loop (and \<open>forEach\<close>) whose body may fail: the indices are visited in
  order and the first failure ends the run.  \<open>None\<close> stands for a step that JavaScript
  cannot continue with finite numbers: an access to a missing row throws a TypeError, an
  access to a missing cell yields \<open>undefined\<close> and then NaN.
\<close>

fun for_loop :: "'i list \<Rightarrow> ('i \<Rightarrow> 's \<Rightarrow> 's option) \<Rightarrow> 's \<Rightarrow> 's option" where
  "for_loop [] body s = Some s"
| "for_loop (i # rest) body s =
     (case body i s of None \<Rightarrow> None | Some s' \<Rightarrow> for_loop rest body s')"

type_synonym vector = "real list"
type_synonym matrix = "real list list"

text \<open>Reading and writing array cells; every index outside the array is a failure.\<close>

definition vec_get :: "vector \<Rightarrow> nat \<Rightarrow> real option" where
  "vec_get v i = (if i < length v then Some (v ! i) else None)"

definition vec_set :: "vector \<Rightarrow> nat \<Rightarrow> real \<Rightarrow> vector option" where
  "vec_set v i a = (if i < length v then Some (v[i := a]) else None)"

definition mat_get :: "matrix \<Rightarrow> nat \<Rightarrow> nat \<Rightarrow> real option" where
  "mat_get M r c = (if r < length M \<and> c < length (M ! r) then Some (M ! r ! c) else None)"

definition mat_set :: "matrix \<Rightarrow> nat \<Rightarrow> nat \<Rightarrow> real \<Rightarrow> matrix option" where
  "mat_set M r c a =
     (if r < length M \<and> c < length (M ! r) then Some (M[r := (M ! r)[c := a]]) else None)"

text \<open>\<open>x[i] || 0\<close>: a missing cell reads as \<open>undefined\<close>, which is falsy.\<close>

definition vec_or0 :: "vector \<Rightarrow> nat \<Rightarrow> real" where
  "vec_or0 v i = (if i < length v then v ! i else 0)"

section \<open>Topology resolution (solveCircuit, step 1)\<close>

definition SNAP_DISTANCE :: real where
  "SNAP_DISTANCE = 10"

text \<open>
  The terminals in the order the source pushes them: per element, \<open>p1\<close> then \<open>p2\<close>.
  The field \<open>compId\<close> added to each copy is never read; it appears only in the store
  model further down.
\<close>

definition points_of :: "CircuitComponent list \<Rightarrow> Point list" where
  "points_of components = concat (map (\<lambda>c. [p1 c, p2 c]) components)"

text \<open>
  The variables of the node search.  \<open>nodeLocations\<close> is a JavaScript array written at
  index \<open>nodeId\<close>; it is kept as a map from indices.
\<close>

record topology =
  pointToNode :: "string \<rightharpoonup> nat"
  nodeLocations :: "nat \<rightharpoonup> real \<times> real"
  nodeCount :: nat
  assignedPoints :: "string set"

definition topology_init :: topology where
  "topology_init =
     \<lparr>pointToNode = Map.empty, nodeLocations = Map.empty, nodeCount = 0,
      assignedPoints = {}\<rparr>"

text \<open>The inner loop: \<open>rest\<close> are the terminals after the representative \<open>r\<close>.\<close>

fun scan_from :: "Point \<Rightarrow> nat \<Rightarrow> Point list \<Rightarrow> topology \<Rightarrow> topology" where
  "scan_from r nodeId [] t = t"
| "scan_from r nodeId (q # rest) t =
     (if pid q \<in> assignedPoints t then scan_from r nodeId rest t
      else if hypot (px r - px q) (py r - py q) < SNAP_DISTANCE
      then scan_from r nodeId rest
             (t\<lparr>pointToNode := (pointToNode t)(pid q \<mapsto> nodeId),
                assignedPoints := insert (pid q) (assignedPoints t)\<rparr>)
      else scan_from r nodeId rest t)"

text \<open>The outer loop over the terminals.\<close>

fun identify_nodes :: "Point list \<Rightarrow> topology \<Rightarrow> topology" where
  "identify_nodes [] t = t"
| "identify_nodes (p # rest) t =
     (if pid p \<in> assignedPoints t then identify_nodes rest t
      else identify_nodes rest
             (scan_from p (nodeCount t) rest
                (t\<lparr>nodeCount := nodeCount t + 1,
                   pointToNode := (pointToNode t)(pid p \<mapsto> nodeCount t),
                   assignedPoints := insert (pid p) (assignedPoints t),
                   nodeLocations := (nodeLocations t)(nodeCount t \<mapsto> (px p, py p))\<rparr>)))"

definition resolve_topology :: "CircuitComponent list \<Rightarrow> topology" where
  "resolve_topology components = identify_nodes (points_of components) topology_init"

section \<open>Matrix assembly (solveCircuit, step 2)\<close>

definition EPSILON_RESISTANCE :: real where
  "EPSILON_RESISTANCE = 1 / 10 ^ 6"

definition INFINITE_RESISTANCE :: real where
  "INFINITE_RESISTANCE = 10 ^ 9"

definition voltageSources :: "CircuitComponent list \<Rightarrow> CircuitComponent list" where
  "voltageSources components = filter (\<lambda>c. ctype c = BATTERY) components"

definition mSize :: "topology \<Rightarrow> CircuitComponent list \<Rightarrow> nat" where
  "mSize t components = (nodeCount t - 1) + length (voltageSources components)"

text \<open>\<open>A[r][c] += ...\<close>, \<open>Z[i] -= ...\<close>: read the cell, write the new value.\<close>

definition mat_upd :: "matrix \<Rightarrow> nat \<Rightarrow> nat \<Rightarrow> (real \<Rightarrow> real) \<Rightarrow> matrix option" where
  "mat_upd M r c f = do { v \<leftarrow> mat_get M r c; mat_set M r c (f v) }"

definition vec_upd :: "vector \<Rightarrow> nat \<Rightarrow> (real \<Rightarrow> real) \<Rightarrow> vector option" where
  "vec_upd v i f = do { a \<leftarrow> vec_get v i; vec_set v i (f a) }"

text \<open>
  A node number as looked up in \<open>pointToNode\<close> may be \<open>undefined\<close>.  The guard
  \<open>n > 0\<close> is false for \<open>undefined\<close> and for ground; otherwise the node's row is
  \<open>n - 1\<close>.
\<close>

definition row_of :: "nat option \<Rightarrow> nat option" where
  "row_of n = (case n of None \<Rightarrow> None | Some k \<Rightarrow> if k > 0 then Some (k - 1) else None)"

definition addConductance :: "nat option \<Rightarrow> nat option \<Rightarrow> real \<Rightarrow> matrix \<Rightarrow> matrix option" where
  "addConductance n1 n2 g A = do {
     A1 \<leftarrow> (case row_of n1 of Some r1 \<Rightarrow> mat_upd A r1 r1 (\<lambda>v. v + g) | None \<Rightarrow> Some A);
     A2 \<leftarrow> (case row_of n2 of Some r2 \<Rightarrow> mat_upd A1 r2 r2 (\<lambda>v. v + g) | None \<Rightarrow> Some A1);
     (case (row_of n1, row_of n2) of
        (Some r1, Some r2) \<Rightarrow> do {
           A3 \<leftarrow> mat_upd A2 r1 r2 (\<lambda>v. v - g);
           mat_upd A3 r2 r1 (\<lambda>v. v - g) }
      | _ \<Rightarrow> Some A2) }"

definition addCurrentSource :: "nat option \<Rightarrow> nat option \<Rightarrow> real \<Rightarrow> vector \<Rightarrow> vector option" where
  "addCurrentSource n1 n2 i Z = do {
     Z1 \<leftarrow> (case row_of n1 of Some r1 \<Rightarrow> vec_upd Z r1 (\<lambda>v. v - i) | None \<Rightarrow> Some Z);
     (case row_of n2 of Some r2 \<Rightarrow> vec_upd Z1 r2 (\<lambda>v. v + i) | None \<Rightarrow> Some Z1) }"

text \<open>
  The per-type rule of the component loop: the pair \<open>(conductance, currentSource)\<close>, both
  initialised to \<open>0\<close> and set by the first matching branch.
\<close>

definition element_model :: "real \<Rightarrow> CircuitComponent \<Rightarrow> real \<times> real" where
  "element_model dt cmp =
     (if ctype cmp = RESISTOR \<or> ctype cmp = LIGHTBULB
      then (1 / or_default (resistance (properties cmp)) 10, 0)
      else if ctype cmp = SWITCH
      then (1 / (if truthy (isOpen (properties cmp)) then INFINITE_RESISTANCE
                 else EPSILON_RESISTANCE), 0)
      else if ctype cmp = WIRE \<or> ctype cmp = AMMETER
      then (1 / EPSILON_RESISTANCE, 0)
      else if ctype cmp = VOLTMETER
      then (1 / INFINITE_RESISTANCE, 0)
      else if ctype cmp = CAPACITOR
      then (let C = or_default (capacitance (properties cmp)) 0.0001 in
            if dt > 0
            then (let conductance = C / dt;
                      vOld = or_default (prevP1Potential cmp) 0
                             - or_default (prevP2Potential cmp) 0
                  in (conductance, - conductance * vOld))
            else (1 / INFINITE_RESISTANCE, 0))
      else if ctype cmp = INDUCTOR
      then (let L = or_default (inductance (properties cmp)) 1 in
            if dt > 0
            then (let conductance = dt / L;
                      iOld = or_default (prevCurrent cmp) 0
                  in (conductance, iOld))
            else (1 / EPSILON_RESISTANCE, 0))
      else (0, 0))"

text \<open>The body of the first \<open>components.forEach\<close>.\<close>

definition stamp_component ::
  "topology \<Rightarrow> real \<Rightarrow> CircuitComponent \<Rightarrow> matrix \<times> vector \<Rightarrow> (matrix \<times> vector) option" where
  "stamp_component t dt cmp AZ =
     (if ctype cmp = BATTERY then Some AZ
      else let n1 = pointToNode t (pid (p1 cmp));
               n2 = pointToNode t (pid (p2 cmp))
           in if n1 = n2 then Some AZ
              else (case element_model dt cmp of (conductance, currentSource) \<Rightarrow> do {
                      A' \<leftarrow> addConductance n1 n2 conductance (fst AZ);
                      Z' \<leftarrow> (if currentSource \<noteq> 0
                             then addCurrentSource n1 n2 currentSource (snd AZ)
                             else Some (snd AZ));
                      Some (A', Z') }))"

text \<open>The body of \<open>voltageSources.forEach\<close>, on the pair \<open>(idx, cmp)\<close>.\<close>

definition stamp_source ::
  "topology \<Rightarrow> nat \<times> CircuitComponent \<Rightarrow> matrix \<times> vector \<Rightarrow> (matrix \<times> vector) option" where
  "stamp_source t ic AZ =
     (let idx = fst ic; cmp = snd ic;
          n1 = pointToNode t (pid (p1 cmp));
          n2 = pointToNode t (pid (p2 cmp));
          vIndex = (nodeCount t - 1) + idx
      in do {
        A1 \<leftarrow> (case row_of n1 of
                 Some r1 \<Rightarrow> do { B \<leftarrow> mat_set (fst AZ) vIndex r1 1; mat_set B r1 vIndex 1 }
               | None \<Rightarrow> Some (fst AZ));
        A2 \<leftarrow> (case row_of n2 of
                 Some r2 \<Rightarrow> do { B \<leftarrow> mat_set A1 vIndex r2 (- 1); mat_set B r2 vIndex (- 1) }
               | None \<Rightarrow> Some A1);
        Z' \<leftarrow> vec_set (snd AZ) vIndex (or_default (voltage (properties cmp)) 9);
        Some (A2, Z') })"

definition assemble ::
  "topology \<Rightarrow> real \<Rightarrow> CircuitComponent list \<Rightarrow> (matrix \<times> vector) option" where
  "assemble t dt components =
     (let m = mSize t components;
          A = replicate m (replicate m 0);
          Z = replicate m 0
      in do {
        AZ \<leftarrow> for_loop components (stamp_component t dt) (A, Z);
        for_loop (enumerate 0 (voltageSources components)) (stamp_source t) AZ })"

section \<open>Gaussian elimination with partial pivoting\<close>

definition PIVOT_TOLERANCE :: real where
  "PIVOT_TOLERANCE = 1 / 10 ^ 10"

text \<open>The search for the pivot row of column \<open>i\<close>; the state is \<open>maxRow\<close>.\<close>

definition pivot_row :: "nat \<Rightarrow> matrix \<Rightarrow> nat \<Rightarrow> nat option" where
  "pivot_row n M i =
     for_loop [i + 1 ..< n]
       (\<lambda>k maxRow. do {
          a \<leftarrow> mat_get M k i;
          b \<leftarrow> mat_get M maxRow i;
          Some (if \<bar>a\<bar> > \<bar>b\<bar> then k else maxRow) })
       i"

text \<open>The destructuring swap \<open>[v[i], v[j]] = [v[j], v[i]]\<close>.\<close>

definition swap_cells :: "'a list \<Rightarrow> nat \<Rightarrow> nat \<Rightarrow> 'a list option" where
  "swap_cells v i j =
     (if i < length v \<and> j < length v then Some (v[i := v ! j, j := v ! i]) else None)"

text \<open>The elimination of row \<open>k\<close> against the pivot row \<open>i\<close>.\<close>

definition eliminate_row ::
  "nat \<Rightarrow> nat \<Rightarrow> nat \<Rightarrow> matrix \<times> vector \<Rightarrow> (matrix \<times> vector) option" where
  "eliminate_row n i k Mx = do {
     mki \<leftarrow> mat_get (fst Mx) k i;
     mii \<leftarrow> mat_get (fst Mx) i i;
     let factor = mki / mii;
     xi \<leftarrow> vec_get (snd Mx) i;
     x' \<leftarrow> vec_upd (snd Mx) k (\<lambda>v. v - factor * xi);
     M' \<leftarrow> for_loop [i ..< n]
            (\<lambda>j M. do { mij \<leftarrow> mat_get M i j; mat_upd M k j (\<lambda>v. v - factor * mij) })
            (fst Mx);
     Some (M', x') }"

text \<open>One round of the outer loop: pivot search, row exchange, tolerance test, elimination.\<close>

definition pivot_exchange :: "nat \<Rightarrow> nat \<Rightarrow> matrix \<times> vector \<Rightarrow> (matrix \<times> vector) option" where
  "pivot_exchange n i Mx = do {
     maxRow \<leftarrow> pivot_row n (fst Mx) i;
     M1 \<leftarrow> swap_cells (fst Mx) i maxRow;
     x1 \<leftarrow> swap_cells (snd Mx) i maxRow;
     Some (M1, x1) }"

definition eliminate_column ::
  "nat \<Rightarrow> nat \<Rightarrow> matrix \<times> vector \<Rightarrow> (matrix \<times> vector) option" where
  "eliminate_column n i Mx = do {
     Mx1 \<leftarrow> pivot_exchange n i Mx;
     pivot \<leftarrow> mat_get (fst Mx1) i i;
     if \<bar>pivot\<bar> < PIVOT_TOLERANCE then Some Mx1
     else for_loop [i + 1 ..< n] (eliminate_row n i) Mx1 }"

definition forward_elimination :: "nat \<Rightarrow> matrix \<times> vector \<Rightarrow> (matrix \<times> vector) option" where
  "forward_elimination n Mx = for_loop [0 ..< n] (eliminate_column n) Mx"

text \<open>One round of back substitution, for the unknown \<open>i\<close>.\<close>

definition substitute :: "nat \<Rightarrow> matrix \<Rightarrow> vector \<Rightarrow> nat \<Rightarrow> vector \<Rightarrow> vector option" where
  "substitute n M x i result = do {
     sum \<leftarrow> for_loop [i + 1 ..< n]
             (\<lambda>j sum. do { mij \<leftarrow> mat_get M i j; rj \<leftarrow> vec_get result j; Some (sum + mij * rj) })
             0;
     mii \<leftarrow> mat_get M i i;
     if \<bar>mii\<bar> > PIVOT_TOLERANCE
     then do { xi \<leftarrow> vec_get x i; vec_set result i ((xi - sum) / mii) }
     else Some result }"

definition back_substitution :: "nat \<Rightarrow> matrix \<Rightarrow> vector \<Rightarrow> vector option" where
  "back_substitution n M x = for_loop (rev [0 ..< n]) (substitute n M x) (replicate n 0)"

definition gaussianElimination :: "matrix \<Rightarrow> vector \<Rightarrow> vector option" where
  "gaussianElimination A b =
     (let n = length A in
      if n = 0 then Some []
      else do {
        Mx \<leftarrow> forward_elimination n (A, b);
        back_substitution n (fst Mx) (snd Mx) })"

section \<open>Result extraction (solveCircuit, step 4) and the solver\<close>

text \<open>The map \<open>nodePotentials\<close>: ground first, then one entry per solved node.\<close>

definition nodePotentials :: "topology \<Rightarrow> vector \<Rightarrow> (nat \<rightharpoonup> real)" where
  "nodePotentials t x =
     fold (\<lambda>i m. m(i + 1 \<mapsto> vec_or0 x i)) [0 ..< nodeCount t - 1] [0 \<mapsto> 0]"

text \<open>\<open>nodePotentials.get(n) || 0\<close>, where \<open>n\<close> itself may be \<open>undefined\<close>.\<close>

definition potential_at :: "(nat \<rightharpoonup> real) \<Rightarrow> nat option \<Rightarrow> real" where
  "potential_at np n = (case n of None \<Rightarrow> 0 | Some k \<Rightarrow> or_default (np k) 0)"

definition point_potentials ::
  "topology \<Rightarrow> (nat \<rightharpoonup> real) \<Rightarrow> CircuitComponent list \<Rightarrow> (string \<rightharpoonup> real)" where
  "point_potentials t np components =
     fold (\<lambda>c m.
             let n1 = pointToNode t (pid (p1 c));
                 n2 = pointToNode t (pid (p2 c))
             in (m(pid (p1 c) \<mapsto> potential_at np n1))(pid (p2 c) \<mapsto> potential_at np n2))
          components Map.empty"

text \<open>\<open>Array.prototype.findIndex\<close>; \<open>None\<close> stands for the result \<open>-1\<close>.\<close>

fun findIndex :: "('a \<Rightarrow> bool) \<Rightarrow> 'a list \<Rightarrow> nat option" where
  "findIndex P [] = None"
| "findIndex P (v # vs) = (if P v then Some 0 else map_option Suc (findIndex P vs))"

text \<open>
  The current of one element, as the second \<open>components.forEach\<close> computes it; \<open>None\<close>
  when the body sets no entry.
\<close>

definition component_current ::
  "topology \<Rightarrow> real \<Rightarrow> CircuitComponent list \<Rightarrow> vector \<Rightarrow> (nat \<rightharpoonup> real) \<Rightarrow> CircuitComponent
     \<Rightarrow> real option" where
  "component_current t dt sources x np cmp =
     (let n1 = pointToNode t (pid (p1 cmp));
          n2 = pointToNode t (pid (p2 cmp));
          v1 = potential_at np n1;
          v2 = potential_at np n2
      in if ctype cmp = BATTERY
         then (case findIndex (\<lambda>v. cid v = cid cmp) sources of
                 Some voltageSourceIndex \<Rightarrow>
                   Some (vec_or0 x ((nodeCount t - 1) + voltageSourceIndex))
               | None \<Rightarrow> None)
         else if ctype cmp = CAPACITOR
         then (if dt > 0
               then (let C = or_default (capacitance (properties cmp)) 0.0001;
                         vOld = or_default (prevP1Potential cmp) 0
                                - or_default (prevP2Potential cmp) 0
                     in Some ((C / dt) * ((v1 - v2) - vOld)))
               else Some 0)
         else if ctype cmp = INDUCTOR
         then (if dt > 0
               then (let L = or_default (inductance (properties cmp)) 1;
                         iOld = or_default (prevCurrent cmp) 0
                     in Some (iOld + (v1 - v2) * (dt / L)))
               else Some ((v1 - v2) / EPSILON_RESISTANCE))
         else (let resistanceValue =
                     (if ctype cmp = RESISTOR \<or> ctype cmp = LIGHTBULB
                      then or_default (resistance (properties cmp)) 10
                      else if ctype cmp = SWITCH
                      then (if truthy (isOpen (properties cmp)) then INFINITE_RESISTANCE
                            else EPSILON_RESISTANCE)
                      else if ctype cmp = VOLTMETER then INFINITE_RESISTANCE
                      else EPSILON_RESISTANCE)
               in Some ((v1 - v2) / resistanceValue)))"

definition component_currents ::
  "topology \<Rightarrow> real \<Rightarrow> CircuitComponent list \<Rightarrow> vector \<Rightarrow> (nat \<rightharpoonup> real)
     \<Rightarrow> (string \<rightharpoonup> real)" where
  "component_currents t dt components x np =
     fold (\<lambda>c m.
             case component_current t dt (voltageSources components) x np c of
               Some i \<Rightarrow> m(cid c \<mapsto> i)
             | None \<Rightarrow> m)
          components Map.empty"

record SolverResult =
  pointPotentials :: "string \<rightharpoonup> real"
  componentCurrents :: "string \<rightharpoonup> real"

definition extract_results ::
  "topology \<Rightarrow> real \<Rightarrow> CircuitComponent list \<Rightarrow> vector \<Rightarrow> SolverResult" where
  "extract_results t dt components x =
     (let np = nodePotentials t x
      in \<lparr>pointPotentials = point_potentials t np components,
          componentCurrents = component_currents t dt components x np\<rparr>)"

definition solveCircuit :: "CircuitComponent list \<Rightarrow> real \<Rightarrow> SolverResult option" where
  "solveCircuit components dt =
     (let t = resolve_topology components in
      if nodeCount t = 0
      then Some \<lparr>pointPotentials = Map.empty, componentCurrents = Map.empty\<rparr>
      else do {
        AZ \<leftarrow> assemble t dt components;
        x \<leftarrow> gaussianElimination (fst AZ) (snd AZ);
        Some (extract_results t dt components x) })"

section \<open>The transient driver (App.tsx, physics loop)\<close>

definition SIMULATION_DT :: real where
  "SIMULATION_DT = 0.05"

definition CHANGE_THRESHOLD :: real where
  "CHANGE_THRESHOLD = 0.0001"

text \<open>The element of \<open>nextComps\<close> built from a solver result.\<close>

definition next_component :: "SolverResult \<Rightarrow> CircuitComponent \<Rightarrow> CircuitComponent" where
  "next_component res c =
     (let newCurrent = or_default (componentCurrents res (cid c)) 0;
          p1V = or_default (pointPotentials res (pid (p1 c))) 0;
          p2V = or_default (pointPotentials res (pid (p2 c))) 0;
          drop =
            (if ctype c = BATTERY then or_default (voltage (properties c)) 0
             else if ctype c = VOLTMETER then p1V - p2V
             else if ctype c = CAPACITOR then p1V - p2V
             else if ctype c = INDUCTOR then p1V - p2V
             else if ctype c = WIRE \<or> ctype c = SWITCH \<or> ctype c = AMMETER then 0
             else newCurrent * or_default (resistance (properties c)) 0)
      in c\<lparr>current := newCurrent, voltageDrop := drop,
            p1Potential := p1V, p2Potential := p2V,
            prevCurrent := Some newCurrent,
            prevP1Potential := Some p1V, prevP2Potential := Some p2V\<rparr>)"

text \<open>The test \<open>nextComps.some((c, i) => ...)\<close> against \<open>currentComps[i]\<close>.\<close>

definition hasChanged :: "CircuitComponent list \<Rightarrow> CircuitComponent list \<Rightarrow> bool" where
  "hasChanged nextComps currentComps =
     list_ex (\<lambda>i. \<bar>current (nextComps ! i) - current (currentComps ! i)\<bar> > CHANGE_THRESHOLD
                 \<or> \<bar>voltageDrop (nextComps ! i) - voltageDrop (currentComps ! i)\<bar>
                      > CHANGE_THRESHOLD)
             [0 ..< length nextComps]"

text \<open>
  One run of \<open>loop\<close> on the committed element list: the list committed afterwards and
  whether \<open>setComponents\<close> was called.
\<close>

definition tick :: "CircuitComponent list \<Rightarrow> (CircuitComponent list \<times> bool) option" where
  "tick currentComps = do {
     res \<leftarrow> solveCircuit currentComps SIMULATION_DT;
     let nextComps = map (next_component res) currentComps;
     if hasChanged nextComps currentComps then Some (nextComps, True)
     else Some (currentComps, False) }"

section \<open>Shapes of linear systems\<close>

definition is_square :: "nat \<Rightarrow> matrix \<Rightarrow> bool" where
  "is_square n M \<longleftrightarrow> length M = n \<and> (\<forall>row \<in> set M. length row = n)"

definition square_system :: "nat \<Rightarrow> matrix \<times> vector \<Rightarrow> bool" where
  "square_system n Mx \<longleftrightarrow> is_square n (fst Mx) \<and> length (snd Mx) = n"

section \<open>Invariants of the node search\<close>

text \<open>The snap test of the inner loop, against the location \<open>loc\<close> of a representative.\<close>

definition within_snap :: "real \<times> real \<Rightarrow> Point \<Rightarrow> bool" where
  "within_snap loc q \<longleftrightarrow> hypot (fst loc - px q) (snd loc - py q) < SNAP_DISTANCE"

text \<open>
  The node search keeps \<open>assignedPoints\<close> equal to the keys of \<open>pointToNode\<close>, and
  every node number below \<open>nodeCount\<close>.
\<close>

definition topology_ok :: "topology \<Rightarrow> bool" where
  "topology_ok t \<longleftrightarrow>
     assignedPoints t = dom (pointToNode t)
     \<and> (\<forall>i k. pointToNode t i = Some k \<longrightarrow> k < nodeCount t)"




section \<open>Consecutive runs of the driver\<close>

text \<open>
  \<open>n\<close> consecutive runs of \<open>loop\<close>, each on the list the previous one left committed:
  the list committed at the end and the change signals in order.
\<close>

fun run_ticks :: "nat \<Rightarrow> CircuitComponent list \<Rightarrow> (CircuitComponent list \<times> bool list) option" where
  "run_ticks 0 comps = Some (comps, [])"
| "run_ticks (Suc n) comps = do {
     step \<leftarrow> tick comps;
     later \<leftarrow> run_ticks n (fst step);
     Some (fst later, snd step # snd later) }"

text \<open>
  A committed list is converged when the current and the voltage drop stored in each
  element are within the threshold of the values the next run computes for it.
\<close>

definition converged :: "CircuitComponent list \<Rightarrow> bool" where
  "converged comps \<longleftrightarrow>
     (\<exists>res. solveCircuit comps SIMULATION_DT = Some res
        \<and> (\<forall>c \<in> set comps.
              \<bar>current (next_component res c) - current c\<bar> \<le> 1 / 10 ^ 4
              \<and> \<bar>voltageDrop (next_component res c) - voltageDrop c\<bar> \<le> 1 / 10 ^ 4))"

text \<open>
  A list is resistive when it holds no capacitor and no inductor.  A map on elements keeps
  the circuit when it changes neither identifier, type, terminals nor properties.
\<close>

definition resistive :: "CircuitComponent list \<Rightarrow> bool" where
  "resistive comps \<longleftrightarrow> (\<forall>c \<in> set comps. ctype c \<noteq> CAPACITOR \<and> ctype c \<noteq> INDUCTOR)"

definition keeps_circuit :: "(CircuitComponent \<Rightarrow> CircuitComponent) \<Rightarrow> bool" where
  "keeps_circuit f \<longleftrightarrow>
     (\<forall>c. cid (f c) = cid c \<and> ctype (f c) = ctype c \<and> p1 (f c) = p1 c \<and> p2 (f c) = p2 c
          \<and> properties (f c) = properties c)"

section \<open>The solver on a store of objects\<close>

text \<open>
  JavaScript passes the element array, the elements, their points and their property bags
  by reference.  The store holds these objects, and the objects the solver builds that
  refer to them or copy them: the array \<open>points\<close> with its spread copies, and the array
  \<open>voltageSources\<close> of element references.  The matrices, vectors, maps and the set of the
  solver are fresh locals that hold numbers and strings only; they stay values.
\<close>

type_synonym addr = nat

record ElementObj =
  e_id :: string
  e_type :: ComponentType
  e_p1 :: addr
  e_p2 :: addr
  e_properties :: addr
  e_current :: real
  e_voltageDrop :: real
  e_p1Potential :: real
  e_p2Potential :: real
  e_prevCurrent :: "real option"
  e_prevP1Potential :: "real option"
  e_prevP2Potential :: "real option"

text \<open>
  A point cell carries \<open>compId\<close> once the solver has copied it with
  \<open>{ ...c.p1, compId: c.id }\<close>.
\<close>

datatype obj =
  ElementCell ElementObj
  | PointCell Point "string option"
  | PropertiesCell Properties
  | RefArray "addr list"

record store =
  cells :: "addr \<rightharpoonup> obj"
  next_addr :: addr

text \<open>A new object gets the next free address.\<close>

definition alloc :: "obj \<Rightarrow> store \<Rightarrow> addr \<times> store" where
  "alloc v s =
     (next_addr s, s\<lparr>cells := (cells s)(next_addr s \<mapsto> v), next_addr := Suc (next_addr s)\<rparr>)"

text \<open>\<open>arr.push(a)\<close> on an array object.\<close>

definition push :: "addr \<Rightarrow> addr \<Rightarrow> store \<Rightarrow> store option" where
  "push arr a s =
     (case cells s arr of
        Some (RefArray xs) \<Rightarrow> Some (s\<lparr>cells := (cells s)(arr \<mapsto> RefArray (xs @ [a]))\<rparr>)
      | _ \<Rightarrow> None)"

text \<open>Reading through references; \<open>None\<close> when an address holds no such object.\<close>

definition read_array :: "store \<Rightarrow> addr \<Rightarrow> addr list option" where
  "read_array s a = (case cells s a of Some (RefArray xs) \<Rightarrow> Some xs | _ \<Rightarrow> None)"

definition read_point :: "store \<Rightarrow> addr \<Rightarrow> Point option" where
  "read_point s a = (case cells s a of Some (PointCell p _) \<Rightarrow> Some p | _ \<Rightarrow> None)"

definition read_properties :: "store \<Rightarrow> addr \<Rightarrow> Properties option" where
  "read_properties s a = (case cells s a of Some (PropertiesCell p) \<Rightarrow> Some p | _ \<Rightarrow> None)"

definition read_element :: "store \<Rightarrow> addr \<Rightarrow> CircuitComponent option" where
  "read_element s a =
     (case cells s a of
        Some (ElementCell e) \<Rightarrow> do {
          q1 \<leftarrow> read_point s (e_p1 e);
          q2 \<leftarrow> read_point s (e_p2 e);
          pr \<leftarrow> read_properties s (e_properties e);
          Some \<lparr>cid = e_id e, ctype = e_type e, p1 = q1, p2 = q2, properties = pr,
                current = e_current e, voltageDrop = e_voltageDrop e,
                p1Potential = e_p1Potential e, p2Potential = e_p2Potential e,
                prevCurrent = e_prevCurrent e, prevP1Potential = e_prevP1Potential e,
                prevP2Potential = e_prevP2Potential e\<rparr> }
      | _ \<Rightarrow> None)"

definition read_components :: "store \<Rightarrow> addr \<Rightarrow> CircuitComponent list option" where
  "read_components s a = do { elems \<leftarrow> read_array s a; those (map (read_element s) elems) }"

text \<open>
  The body of the first \<open>components.forEach\<close>: two spread copies, each pushed on
  \<open>points\<close>.
\<close>

definition push_terminals :: "addr \<Rightarrow> addr \<Rightarrow> store \<Rightarrow> store option" where
  "push_terminals points c s =
     (case cells s c of
        Some (ElementCell e) \<Rightarrow> do {
          q1 \<leftarrow> read_point s (e_p1 e);
          s1 \<leftarrow> push points (fst (alloc (PointCell q1 (Some (e_id e))) s))
                  (snd (alloc (PointCell q1 (Some (e_id e))) s));
          q2 \<leftarrow> read_point s1 (e_p2 e);
          push points (fst (alloc (PointCell q2 (Some (e_id e))) s1))
            (snd (alloc (PointCell q2 (Some (e_id e))) s1)) }
      | _ \<Rightarrow> None)"

text \<open>The predicate of \<open>components.filter\<close>, on an element reference.\<close>

definition is_battery :: "store \<Rightarrow> addr \<Rightarrow> bool" where
  "is_battery s a = (case cells s a of Some (ElementCell e) \<Rightarrow> e_type e = BATTERY | _ \<Rightarrow> False)"

text \<open>
  \<open>solveCircuit\<close> on the store: it returns the result and the store it leaves.  Node
  search reads the copies in \<open>points\<close>; assembly and extraction read the elements.
\<close>

definition solveCircuit_store :: "addr \<Rightarrow> real \<Rightarrow> store \<Rightarrow> (SolverResult \<times> store) option" where
  "solveCircuit_store components dt s = do {
     elems \<leftarrow> read_array s components;
     let points = fst (alloc (RefArray []) s);
     s1 \<leftarrow> for_loop elems (push_terminals points) (snd (alloc (RefArray []) s));
     copies \<leftarrow> read_array s1 points;
     terminals \<leftarrow> those (map (read_point s1) copies);
     let t = identify_nodes terminals topology_init;
     if nodeCount t = 0
     then Some (\<lparr>pointPotentials = Map.empty, componentCurrents = Map.empty\<rparr>, s1)
     else do {
       let s2 = snd (alloc (RefArray (filter (is_battery s1) elems)) s1);
       comps \<leftarrow> those (map (read_element s2) elems);
       AZ \<leftarrow> assemble t dt comps;
       x \<leftarrow> gaussianElimination (fst AZ) (snd AZ);
       Some (extract_results t dt comps x, s2) } }"

text \<open>
  Allocated addresses lie below the allocation pointer.  A store extends another when
  every address the other had allocated holds what it held.
\<close>

definition store_ok :: "store \<Rightarrow> bool" where
  "store_ok s \<longleftrightarrow> (\<forall>a \<in> dom (cells s). a < next_addr s)"

definition extends :: "store \<Rightarrow> store \<Rightarrow> bool" where
  "extends s0 s \<longleftrightarrow>
     next_addr s0 \<le> next_addr s \<and> (\<forall>a < next_addr s0. cells s a = cells s0 a)"

text \<open>A step that changes only the array \<open>points\<close> and cells allocated later.\<close>

definition local_step :: "addr \<Rightarrow> store \<Rightarrow> store \<Rightarrow> bool" where
  "local_step points s s' \<longleftrightarrow>
     next_addr s \<le> next_addr s'
     \<and> (\<forall>a < next_addr s. a \<noteq> points \<longrightarrow> cells s' a = cells s a)"

section \<open>Example circuits\<close>

text \<open>
  \<open>createComp\<close> of \<open>handleLoadPreset\<close> (App.tsx), with the random identifier as a
  parameter and without property overrides.
\<close>

definition createComp ::
  "string \<Rightarrow> ComponentType \<Rightarrow> real \<Rightarrow> real \<Rightarrow> real \<Rightarrow> real \<Rightarrow> CircuitComponent" where
  "createComp ident type x1 y1 x2 y2 =
     \<lparr>cid = ident, ctype = type,
      p1 = \<lparr>px = x1, py = y1, pid = ident @ ''-p1''\<rparr>,
      p2 = \<lparr>px = x2, py = y2, pid = ident @ ''-p2''\<rparr>,
      properties = \<lparr>resistance = Some 10, voltage = Some 9, isOpen = Some False,
                    capacitance = Some 0.001, inductance = Some 1\<rparr>,
      current = 0, voltageDrop = 0, p1Potential = 0, p2Potential = 0,
      prevCurrent = Some 0, prevP1Potential = Some 0, prevP2Potential = Some 0\<rparr>"

text \<open>A battery and a resistor in a loop; terminals that coincide share a node.\<close>

definition simple_loop :: "CircuitComponent list" where
  "simple_loop =
     [createComp ''b'' BATTERY 100 300 100 100, createComp ''r'' RESISTOR 100 100 100 300]"

text \<open>
  A series loop of battery, resistor and capacitor closed by a wire, the capacitor carrying
  history from an earlier step; and the same loop with an inductor.
\<close>

definition charged_capacitor :: CircuitComponent where
  "charged_capacitor =
     (createComp ''c'' CAPACITOR 300 100 300 300)
       \<lparr>prevP1Potential := Some 5, prevP2Potential := Some 2\<rparr>"

definition rc_loop :: "CircuitComponent list" where
  "rc_loop =
     [createComp ''b'' BATTERY 100 300 100 100, createComp ''r'' RESISTOR 100 100 300 100,
      charged_capacitor, createComp ''w'' WIRE 300 300 100 300]"

definition energised_inductor :: CircuitComponent where
  "energised_inductor =
     (createComp ''l'' INDUCTOR 300 100 300 300)\<lparr>prevCurrent := Some (1 / 2)\<rparr>"

definition rl_loop :: "CircuitComponent list" where
  "rl_loop =
     [createComp ''b'' BATTERY 100 300 100 100, createComp ''r'' RESISTOR 100 100 300 100,
      energised_inductor, createComp ''w'' WIRE 300 300 100 300]"

text \<open>A loop with a capacitor, an inductor and a voltmeter in parallel.\<close>

definition demo_circuit :: "CircuitComponent list" where
  "demo_circuit =
     [createComp ''b'' BATTERY 100 300 100 100, createComp ''r'' RESISTOR 100 100 300 100,
      charged_capacitor, energised_inductor, createComp ''v'' VOLTMETER 300 100 300 300,
      createComp ''w'' WIRE 300 300 100 300]"

text \<open>
  A wire followed by a battery whose two terminals lie on the wire's second terminal, and
  a wire whose two terminals lie on one spot.
\<close>

definition shorted_battery :: CircuitComponent where
  "shorted_battery = createComp ''b'' BATTERY 100 0 100 0"

definition shorted_circuit :: "CircuitComponent list" where
  "shorted_circuit = [createComp ''w'' WIRE 50 0 100 0, shorted_battery]"

definition looped_wire :: CircuitComponent where
  "looped_wire = createComp ''x'' WIRE 100 0 100 0"

text \<open>A loop whose battery voltage and resistance are explicitly \<open>0\<close>.\<close>

definition zeroed :: "CircuitComponent \<Rightarrow> CircuitComponent" where
  "zeroed c = c\<lparr>properties := (properties c)\<lparr>resistance := Some 0, voltage := Some 0\<rparr>\<rparr>"

definition zero_loop :: "CircuitComponent list" where
  "zero_loop =
     [zeroed (createComp ''b'' BATTERY 100 300 100 100),
      zeroed (createComp ''r'' RESISTOR 100 100 100 300)]"


text \<open>The battery and resistor loop, holding the values of its direct-current solution.\<close>

definition steady_loop :: "CircuitComponent list" where
  "steady_loop =
     [(createComp ''b'' BATTERY 100 300 100 100)\<lparr>current := - (9 / 10), voltageDrop := 9\<rparr>,
      (createComp ''r'' RESISTOR 100 100 100 300)\<lparr>current := - (9 / 10), voltageDrop := - 9\<rparr>]"

text \<open>A store holding one wire, its two points, its property bag and the element array.\<close>

definition example_store :: store where
  "example_store =
     \<lparr>cells =
        [0 \<mapsto> PointCell \<lparr>px = 50, py = 0, pid = ''w-p1''\<rparr> None,
         1 \<mapsto> PointCell \<lparr>px = 100, py = 0, pid = ''w-p2''\<rparr> None,
         2 \<mapsto> PropertiesCell \<lparr>resistance = Some 10, voltage = Some 9, isOpen = Some False,
                                capacitance = Some 0.001, inductance = Some 1\<rparr>,
         3 \<mapsto> ElementCell
               \<lparr>e_id = ''w'', e_type = WIRE, e_p1 = 0, e_p2 = 1, e_properties = 2,
                e_current = 0, e_voltageDrop = 0, e_p1Potential = 0, e_p2Potential = 0,
                e_prevCurrent = Some 0, e_prevP1Potential = Some 0,
                e_prevP2Potential = Some 0\<rparr>,
         4 \<mapsto> RefArray [3]],
      next_addr = 5\<rparr>"

section \<open>Loops and array cells\<close>

lemma for_loop_invariant:
  assumes "I s"
    and "\<And>i s. i \<in> set idx \<Longrightarrow> I s \<Longrightarrow> \<exists>s'. body i s = Some s' \<and> I s'"
  shows "\<exists>s'. for_loop idx body s = Some s' \<and> I s'"
  using assms
proof (induction idx arbitrary: s)
  case Nil
  then show ?case by simp
next
  case (Cons i rest)
  from Cons.prems obtain s1 where s1: "body i s = Some s1" "I s1"
    by (meson list.set_intros(1))
  have "\<exists>s'. for_loop rest body s1 = Some s' \<and> I s'"
    by (rule Cons.IH [OF s1(2)]) (simp add: Cons.prems(2))
  with s1 show ?case by simp
qed

lemma is_square_row: "is_square n M \<Longrightarrow> r < n \<Longrightarrow> length (M ! r) = n"
  by (simp add: is_square_def)

lemma is_square_update:
  "is_square n M \<Longrightarrow> length row = n \<Longrightarrow> is_square n (M[r := row])"
  by (auto simp: is_square_def dest: set_update_subset_insert [THEN subsetD])

lemma mat_get_square:
  "is_square n M \<Longrightarrow> r < n \<Longrightarrow> c < n \<Longrightarrow> mat_get M r c = Some (M ! r ! c)"
  by (simp add: mat_get_def is_square_def)

lemma mat_set_square:
  assumes "is_square n M" "r < n" "c < n"
  shows "\<exists>M'. mat_set M r c a = Some M' \<and> is_square n M'"
proof -
  have "length ((M ! r)[c := a]) = n" using assms by (simp add: is_square_row)
  then have "is_square n (M[r := (M ! r)[c := a]])"
    using assms(1) by (rule is_square_update [rotated])
  then show ?thesis using assms by (simp add: mat_set_def is_square_def)
qed

lemma mat_upd_square:
  assumes "is_square n M" "r < n" "c < n"
  shows "\<exists>M'. mat_upd M r c f = Some M' \<and> is_square n M'"
  using mat_set_square [OF assms] assms by (simp add: mat_upd_def mat_get_square)

lemma vec_get_len: "i < length v \<Longrightarrow> vec_get v i = Some (v ! i)"
  by (simp add: vec_get_def)

lemma vec_set_len:
  "i < length v \<Longrightarrow> \<exists>v'. vec_set v i a = Some v' \<and> length v' = length v"
  by (simp add: vec_set_def)

lemma vec_upd_len:
  "i < length v \<Longrightarrow> \<exists>v'. vec_upd v i f = Some v' \<and> length v' = length v"
  by (simp add: vec_upd_def vec_get_def vec_set_def)

lemma swap_cells_len:
  "i < length v \<Longrightarrow> j < length v \<Longrightarrow>
     \<exists>v'. swap_cells v i j = Some v' \<and> length v' = length v \<and> set v' \<subseteq> set v"
  by (auto simp: swap_cells_def dest!: set_update_subset_insert [THEN subsetD])

lemma swap_cells_square:
  assumes "is_square n M" "i < n" "j < n"
  shows "\<exists>M'. swap_cells M i j = Some M' \<and> is_square n M'"
proof -
  from assms have "i < length M" "j < length M" by (simp_all add: is_square_def)
  from swap_cells_len [OF this] obtain M' where
    "swap_cells M i j = Some M'" "length M' = length M" "set M' \<subseteq> set M" by blast
  with assms(1) show ?thesis by (auto simp: is_square_def)
qed

lemma pivot_row_bound:
  assumes "is_square n M" "i < n"
  shows "\<exists>maxRow. pivot_row n M i = Some maxRow \<and> maxRow < n"
  unfolding pivot_row_def
proof (rule for_loop_invariant [where I = "\<lambda>maxRow. maxRow < n"])
  show "i < n" by fact
next
  fix k maxRow assume "k \<in> set [i + 1..<n]" "maxRow < n"
  then show "\<exists>s'. do { a \<leftarrow> mat_get M k i; b \<leftarrow> mat_get M maxRow i;
                Some (if \<bar>b\<bar> < \<bar>a\<bar> then k else maxRow) } = Some s' \<and> s' < n"
    using assms by (simp add: mat_get_square)
qed

lemma pivot_exchange_square:
  assumes "square_system n Mx" "i < n"
  shows "\<exists>Mx'. pivot_exchange n i Mx = Some Mx' \<and> square_system n Mx'"
proof -
  from assms have sq: "is_square n (fst Mx)" and len: "length (snd Mx) = n"
    by (simp_all add: square_system_def)
  from pivot_row_bound [OF sq assms(2)] obtain maxRow where
    m: "pivot_row n (fst Mx) i = Some maxRow" "maxRow < n" by blast
  from swap_cells_square [OF sq assms(2) m(2)] obtain M1 where
    M1: "swap_cells (fst Mx) i maxRow = Some M1" "is_square n M1" by blast
  from swap_cells_len [of i "snd Mx" maxRow] assms(2) m(2) len obtain x1 where
    x1: "swap_cells (snd Mx) i maxRow = Some x1" "length x1 = n" by auto
  show ?thesis by (simp add: pivot_exchange_def m M1 x1 square_system_def)
qed

lemma eliminate_row_square:
  assumes "square_system n Mx" "i < n" "k < n"
  shows "\<exists>Mx'. eliminate_row n i k Mx = Some Mx' \<and> square_system n Mx'"
proof -
  from assms have sq: "is_square n (fst Mx)" and len: "length (snd Mx) = n"
    by (simp_all add: square_system_def)
  have x': "\<exists>x'. vec_upd (snd Mx) k f = Some x' \<and> length x' = n" for f
    using vec_upd_len [of k "snd Mx" f] assms(3) len by simp
  have inner: "\<exists>M'. for_loop [i ..< n]
            (\<lambda>j M. do { mij \<leftarrow> mat_get M i j; mat_upd M k j (\<lambda>v. v - factor * mij) })
            (fst Mx) = Some M' \<and> is_square n M'" for factor
  proof (rule for_loop_invariant [where I = "is_square n"])
    show "is_square n (fst Mx)" by fact
  next
    fix j M assume "j \<in> set [i..<n]" "is_square n M"
    then show "\<exists>s'. do { mij \<leftarrow> mat_get M i j; mat_upd M k j (\<lambda>v. v - factor * mij) } = Some s'
                 \<and> is_square n s'"
      using assms(2,3) by (simp add: mat_get_square mat_upd_square)
  qed
  obtain x1 where x1: "vec_upd (snd Mx) k
       (\<lambda>v. v - fst Mx ! k ! i / fst Mx ! i ! i * (snd Mx ! i)) = Some x1" "length x1 = n"
    using x' by blast
  obtain M1 where M1: "for_loop [i ..< n]
            (\<lambda>j M. do { mij \<leftarrow> mat_get M i j;
                        mat_upd M k j (\<lambda>v. v - fst Mx ! k ! i / fst Mx ! i ! i * mij) })
            (fst Mx) = Some M1" "is_square n M1"
    using inner by blast
  show ?thesis
    using assms(2,3) sq len x1 M1
    by (simp add: eliminate_row_def mat_get_square vec_get_len square_system_def)
qed

lemma eliminate_column_square:
  assumes "square_system n Mx" "i < n"
  shows "\<exists>Mx'. eliminate_column n i Mx = Some Mx' \<and> square_system n Mx'"
proof -
  from pivot_exchange_square [OF assms] obtain Mx1 where
    ex: "pivot_exchange n i Mx = Some Mx1" "square_system n Mx1" by blast
  then have "is_square n (fst Mx1)" by (simp add: square_system_def)
  then have pv: "mat_get (fst Mx1) i i = Some (fst Mx1 ! i ! i)"
    by (rule mat_get_square [OF _ assms(2) assms(2)])
  have "\<exists>Mx'. for_loop [i + 1 ..< n] (eliminate_row n i) Mx1 = Some Mx' \<and> square_system n Mx'"
  proof (rule for_loop_invariant [where I = "square_system n"])
    show "square_system n Mx1" by (rule ex(2))
  next
    fix k s assume k: "k \<in> set [i + 1..<n]" and s: "square_system n s"
    from k have "k < n" by simp
    with s assms(2) show "\<exists>s'. eliminate_row n i k s = Some s' \<and> square_system n s'"
      by (rule eliminate_row_square)
  qed
  then obtain Mx2 where
    "for_loop [i + 1 ..< n] (eliminate_row n i) Mx1 = Some Mx2" "square_system n Mx2" by blast
  then show ?thesis using ex pv by (simp add: eliminate_column_def del: split_paired_Ex)
qed

lemma forward_elimination_square:
  assumes "square_system n Mx"
  shows "\<exists>Mx'. forward_elimination n Mx = Some Mx' \<and> square_system n Mx'"
  unfolding forward_elimination_def
proof (rule for_loop_invariant [where I = "square_system n"])
  show "square_system n Mx" by fact
next
  fix i s assume i: "i \<in> set [0..<n]" and s: "square_system n s"
  from i have "i < n" by simp
  with s show "\<exists>s'. eliminate_column n i s = Some s' \<and> square_system n s'"
    by (rule eliminate_column_square)
qed

lemma substitute_zero:
  assumes sq: "is_square n M" and lx: "length x = n" and i: "i < n"
    and inv: "length r = n \<and> (\<forall>k<n. \<bar>M ! k ! k\<bar> \<le> PIVOT_TOLERANCE \<longrightarrow> r ! k = 0)"
  shows "\<exists>r'. substitute n M x i r = Some r'
           \<and> (length r' = n \<and> (\<forall>k<n. \<bar>M ! k ! k\<bar> \<le> PIVOT_TOLERANCE \<longrightarrow> r' ! k = 0))"
proof -
  have "\<exists>acc. for_loop [i + 1 ..< n]
             (\<lambda>j sum. do { mij \<leftarrow> mat_get M i j; rj \<leftarrow> vec_get r j; Some (sum + mij * rj) })
             0 = Some acc \<and> True"
  proof (rule for_loop_invariant [where I = "\<lambda>_. True"])
    fix j and acc :: real assume "j \<in> set [i + 1..<n]"
    then have j: "j < n" by simp
    have "mat_get M i j = Some (M ! i ! j)" by (rule mat_get_square [OF sq i j])
    moreover have "vec_get r j = Some (r ! j)" using j inv by (simp add: vec_get_def)
    ultimately show "\<exists>s'. do { mij \<leftarrow> mat_get M i j; rj \<leftarrow> vec_get r j;
                       Some (acc + mij * rj) } = Some s' \<and> True"
      by simp
  qed simp
  then obtain acc where acc: "for_loop [i + 1 ..< n]
             (\<lambda>j sum. do { mij \<leftarrow> mat_get M i j; rj \<leftarrow> vec_get r j; Some (sum + mij * rj) })
             0 = Some acc" by blast
  note acc = this [simplified]
  have pv: "mat_get M i i = Some (M ! i ! i)" by (rule mat_get_square [OF sq i i])
  show ?thesis
  proof (cases "\<bar>M ! i ! i\<bar> > PIVOT_TOLERANCE")
    case True
    have xi: "vec_get x i = Some (x ! i)" using i lx by (simp add: vec_get_def)
    have "vec_set r i a = Some (r[i := a])" for a using i inv by (simp add: vec_set_def)
    then have "substitute n M x i r = Some (r[i := (x ! i - acc) / (M ! i ! i)])"
      using True by (simp add: substitute_def acc pv xi)
    moreover have "\<forall>k<n. \<bar>M ! k ! k\<bar> \<le> PIVOT_TOLERANCE \<longrightarrow>
                     (r[i := (x ! i - acc) / (M ! i ! i)]) ! k = 0"
    proof (intro allI impI)
      fix k assume k: "k < n" "\<bar>M ! k ! k\<bar> \<le> PIVOT_TOLERANCE"
      with True have "k \<noteq> i" by auto
      with k inv show "(r[i := (x ! i - acc) / (M ! i ! i)]) ! k = 0" by simp
    qed
    ultimately show ?thesis using inv by simp
  next
    case False
    then have "substitute n M x i r = Some r"
      by (simp add: substitute_def acc pv)
    then show ?thesis using inv by simp
  qed
qed

lemma back_substitution_zero:
  assumes sq: "is_square n M" and lx: "length x = n"
  shows "\<exists>r. back_substitution n M x = Some r
           \<and> (length r = n \<and> (\<forall>k<n. \<bar>M ! k ! k\<bar> \<le> PIVOT_TOLERANCE \<longrightarrow> r ! k = 0))"
  unfolding back_substitution_def
proof (rule for_loop_invariant
    [where I = "\<lambda>r. length r = n \<and> (\<forall>k<n. \<bar>M ! k ! k\<bar> \<le> PIVOT_TOLERANCE \<longrightarrow> r ! k = 0)"])
  show "length (replicate n (0::real)) = n
          \<and> (\<forall>k<n. \<bar>M ! k ! k\<bar> \<le> PIVOT_TOLERANCE \<longrightarrow> replicate n (0::real) ! k = 0)"
    by simp
next
  fix i and r :: vector
  assume i: "i \<in> set (rev [0..<n])"
    and inv: "length r = n \<and> (\<forall>k<n. \<bar>M ! k ! k\<bar> \<le> PIVOT_TOLERANCE \<longrightarrow> r ! k = 0)"
  from i have "i < n" by simp
  from substitute_zero [OF sq lx this inv]
  show "\<exists>r'. substitute n M x i r = Some r'
           \<and> (length r' = n \<and> (\<forall>k<n. \<bar>M ! k ! k\<bar> \<le> PIVOT_TOLERANCE \<longrightarrow> r' ! k = 0))" .
qed

lemma gaussianElimination_square:
  assumes "square_system n (A, b)"
  shows "\<exists>Mx r. forward_elimination n (A, b) = Some Mx \<and> square_system n Mx
           \<and> gaussianElimination A b = Some r \<and> length r = n
           \<and> (\<forall>k<n. \<bar>fst Mx ! k ! k\<bar> \<le> PIVOT_TOLERANCE \<longrightarrow> r ! k = 0)"
proof -
  from assms have n: "length A = n" by (simp add: square_system_def is_square_def)
  from forward_elimination_square [OF assms] obtain Mx where
    fw: "forward_elimination n (A, b) = Some Mx" "square_system n Mx" by blast
  then have "is_square n (fst Mx)" "length (snd Mx) = n" by (simp_all add: square_system_def)
  from back_substitution_zero [OF this] obtain r where
    r: "back_substitution n (fst Mx) (snd Mx) = Some r" "length r = n"
       "\<forall>k<n. \<bar>fst Mx ! k ! k\<bar> \<le> PIVOT_TOLERANCE \<longrightarrow> r ! k = 0" by blast
  show ?thesis
  proof (cases "n = 0")
    case True
    with fw r n show ?thesis by (simp add: gaussianElimination_def)
  next
    case False
    with fw r n show ?thesis by (simp add: gaussianElimination_def)
  qed
qed

section \<open>Claims about the linear solver\<close>

text \<open>
  C4.  On every square system Gaussian elimination returns a solution vector and raises no
  error, singular matrices included.  In every round, when the pivot left by the row
  exchange is below the tolerance \<open>1e-10\<close> in magnitude, the round ends with the state
  the row exchange produced: the elimination of that column is skipped.  Back substitution
  gives \<open>0\<close> to every unknown whose diagonal entry in the eliminated matrix is not above
  the tolerance in magnitude.
\<close>

theorem gaussianElimination_tolerates_singular:
  assumes "square_system n (A, b)"
  shows "(\<forall>i<n. \<forall>Mx. square_system n Mx \<longrightarrow>
            (\<exists>Mx1 Mx2. pivot_exchange n i Mx = Some Mx1 \<and> eliminate_column n i Mx = Some Mx2
               \<and> (\<bar>fst Mx1 ! i ! i\<bar> < PIVOT_TOLERANCE \<longrightarrow> Mx2 = Mx1)))
       \<and> (\<exists>Mx r. forward_elimination n (A, b) = Some Mx
             \<and> gaussianElimination A b = Some r \<and> length r = n
             \<and> (\<forall>k<n. \<bar>fst Mx ! k ! k\<bar> \<le> PIVOT_TOLERANCE \<longrightarrow> r ! k = 0))"
proof (intro conjI allI impI)
  fix i Mx assume i: "i < n" and sq: "square_system n Mx"
  from pivot_exchange_square [OF sq i] obtain Mx1 where
    ex: "pivot_exchange n i Mx = Some Mx1" "square_system n Mx1" by blast
  from eliminate_column_square [OF sq i] obtain Mx2 where
    el: "eliminate_column n i Mx = Some Mx2" by blast
  from ex(2) have "is_square n (fst Mx1)" by (simp add: square_system_def)
  then have pv: "mat_get (fst Mx1) i i = Some (fst Mx1 ! i ! i)"
    by (rule mat_get_square [OF _ i i])
  have "\<bar>fst Mx1 ! i ! i\<bar> < PIVOT_TOLERANCE \<longrightarrow> Mx2 = Mx1"
    using el ex(1) pv by (auto simp: eliminate_column_def)
  with ex(1) el
  show "\<exists>Mx1 Mx2. pivot_exchange n i Mx = Some Mx1 \<and> eliminate_column n i Mx = Some Mx2
          \<and> (\<bar>fst Mx1 ! i ! i\<bar> < PIVOT_TOLERANCE \<longrightarrow> Mx2 = Mx1)"
    by blast
next
  from gaussianElimination_square [OF assms]
  show "\<exists>Mx r. forward_elimination n (A, b) = Some Mx
          \<and> gaussianElimination A b = Some r \<and> length r = n
          \<and> (\<forall>k<n. \<bar>fst Mx ! k ! k\<bar> \<le> PIVOT_TOLERANCE \<longrightarrow> r ! k = 0)"
    by blast
qed

lemma zero_system_exchange:
  "pivot_exchange 2 0 ([[0, 0], [0, 0]], [1, 2]) = Some ([[0, 0], [0, 0]], [1, 2])"
  by code_simp

theorem gaussianElimination_tolerates_singular_witness:
  "square_system 2 ([[0, 0], [0, 0]], [1, 2])
   \<and> pivot_exchange 2 0 ([[0, 0], [0, 0]], [1, 2]) = Some ([[0, 0], [0, 0]], [1, 2])
   \<and> eliminate_column 2 0 ([[0, 0], [0, 0]], [1, 2]) = Some ([[0, 0], [0, 0]], [1, 2])
   \<and> (\<exists>Mx r. forward_elimination 2 ([[0, 0], [0, 0]], [1, 2]) = Some Mx
         \<and> gaussianElimination [[0, 0], [0, 0]] [1, 2] = Some r \<and> length r = 2
         \<and> (\<forall>k<2. \<bar>fst Mx ! k ! k\<bar> \<le> PIVOT_TOLERANCE \<longrightarrow> r ! k = 0))"
proof -
  have h: "square_system 2 ([[0, 0], [0, 0]], [1, 2])"
    by (simp add: square_system_def is_square_def)
  note t = gaussianElimination_tolerates_singular [OF h]
  from t have "\<exists>Mx1 Mx2. pivot_exchange 2 0 ([[0, 0], [0, 0]], [1, 2]) = Some Mx1
      \<and> eliminate_column 2 0 ([[0, 0], [0, 0]], [1, 2]) = Some Mx2
      \<and> (\<bar>fst Mx1 ! 0 ! 0\<bar> < PIVOT_TOLERANCE \<longrightarrow> Mx2 = Mx1)"
    using h by simp
  then have "eliminate_column 2 0 ([[0, 0], [0, 0]], [1, 2]) = Some ([[0, 0], [0, 0]], [1, 2])"
    by (auto simp: zero_system_exchange PIVOT_TOLERANCE_def)
  with t h zero_system_exchange show ?thesis by blast
qed

text \<open>The solver on a singular and on a regular system.\<close>

lemma gaussianElimination_singular_example:
  "gaussianElimination [[0, 0], [0, 0]] [1, 2] = Some [0, 0]"
  by code_simp

lemma gaussianElimination_regular_example:
  "gaussianElimination [[2, 1], [1, 3]] [3, 5] = Some [4 / 5, 7 / 5]"
  by code_simp

section \<open>Topology invariants\<close>

lemma hypot_less_snap: "hypot a b < SNAP_DISTANCE \<longleftrightarrow> a\<^sup>2 + b\<^sup>2 < 100"
proof -
  have "sqrt (10\<^sup>2) = (10::real)" by simp
  then have "sqrt 100 = (10::real)" by simp
  then have "hypot a b < SNAP_DISTANCE \<longleftrightarrow> sqrt (a\<^sup>2 + b\<^sup>2) < sqrt 100"
    by (simp add: hypot_def SNAP_DISTANCE_def)
  then show ?thesis by (simp only: real_sqrt_less_iff)
qed

lemma scan_from_nodeCount [simp]: "nodeCount (scan_from r n qs t) = nodeCount t"
  by (induction qs arbitrary: t) simp_all

lemma scan_from_nodeLocations [simp]: "nodeLocations (scan_from r n qs t) = nodeLocations t"
  by (induction qs arbitrary: t) simp_all

lemma scan_from_assignedPoints:
  "assignedPoints (scan_from r n qs t)
     = assignedPoints t \<union> {pid q | q. q \<in> set qs \<and> within_snap (px r, py r) q}"
  by (induction qs arbitrary: t) (auto simp: within_snap_def)

lemma scan_from_pointToNode:
  "pointToNode (scan_from r n qs t) i
     = (if i \<notin> assignedPoints t \<and> (\<exists>q \<in> set qs. pid q = i \<and> within_snap (px r, py r) q)
        then Some n else pointToNode t i)"
proof (induction qs arbitrary: t)
  case Nil
  then show ?case by simp
next
  case (Cons q qs)
  show ?case by (simp add: Cons.IH within_snap_def) blast
qed

lemma scan_from_ok:
  assumes "topology_ok t" "n < nodeCount t"
  shows "topology_ok (scan_from r n qs t)"
  using assms unfolding topology_ok_def
  by (auto simp: scan_from_assignedPoints scan_from_pointToNode split: if_splits)

lemma identify_nodes_ok:
  "topology_ok t \<Longrightarrow>
     topology_ok (identify_nodes ps t)
     \<and> pid ` set ps \<union> assignedPoints t \<subseteq> assignedPoints (identify_nodes ps t)"
proof (induction ps arbitrary: t)
  case Nil
  then show ?case by simp
next
  case (Cons p ps)
  show ?case
  proof (cases "pid p \<in> assignedPoints t")
    case True
    with Cons.IH [OF Cons.prems] show ?thesis by auto
  next
    case False
    let ?t1 = "t\<lparr>nodeCount := nodeCount t + 1,
                  pointToNode := (pointToNode t)(pid p \<mapsto> nodeCount t),
                  assignedPoints := insert (pid p) (assignedPoints t),
                  nodeLocations := (nodeLocations t)(nodeCount t \<mapsto> (px p, py p))\<rparr>"
    let ?t2 = "scan_from p (nodeCount t) ps ?t1"
    have "topology_ok ?t1"
      using Cons.prems unfolding topology_ok_def by (auto simp: less_Suc_eq)
    then have ok2: "topology_ok ?t2" by (rule scan_from_ok) simp
    have "insert (pid p) (assignedPoints t) \<subseteq> assignedPoints ?t2"
      by (auto simp: scan_from_assignedPoints)
    with Cons.IH [OF ok2] False show ?thesis by auto
  qed
qed

lemma topology_init_ok: "topology_ok topology_init"
  by (simp add: topology_ok_def topology_init_def)

lemma resolve_topology_ok: "topology_ok (resolve_topology components)"
  using identify_nodes_ok [OF topology_init_ok, of "points_of components"]
  by (simp add: resolve_topology_def)

lemma resolve_topology_assigned:
  assumes "c \<in> set components"
  shows "pid (p1 c) \<in> assignedPoints (resolve_topology components)"
    and "pid (p2 c) \<in> assignedPoints (resolve_topology components)"
  using identify_nodes_ok [OF topology_init_ok, of "points_of components"] assms
  by (auto simp: resolve_topology_def points_of_def)

lemma resolve_topology_node:
  assumes "c \<in> set components"
  shows "\<exists>k1 k2. pointToNode (resolve_topology components) (pid (p1 c)) = Some k1
           \<and> k1 < nodeCount (resolve_topology components)
           \<and> pointToNode (resolve_topology components) (pid (p2 c)) = Some k2
           \<and> k2 < nodeCount (resolve_topology components)"
proof -
  let ?t = "resolve_topology components"
  have ok: "topology_ok ?t" by (rule resolve_topology_ok)
  have "pid (p1 c) \<in> dom (pointToNode ?t)" "pid (p2 c) \<in> dom (pointToNode ?t)"
    using resolve_topology_assigned [OF assms] ok by (simp_all add: topology_ok_def)
  then obtain k1 k2 where
    k: "pointToNode ?t (pid (p1 c)) = Some k1" "pointToNode ?t (pid (p2 c)) = Some k2"
    by blast
  with ok have "k1 < nodeCount ?t" "k2 < nodeCount ?t"
    by (simp_all add: topology_ok_def)
  with k show ?thesis by simp
qed

lemma resolve_topology_empty: "resolve_topology [] = topology_init"
  by (simp add: resolve_topology_def points_of_def)

section \<open>Assembly stays inside the arrays\<close>

lemma row_of_bound:
  assumes "topology_ok t" "row_of (pointToNode t i) = Some r"
  shows "r < nodeCount t - 1"
proof -
  from assms(2) obtain k where k: "pointToNode t i = Some k" "k > 0" "r = k - 1"
    by (auto simp: row_of_def split: option.splits if_splits)
  with assms(1) have "k < nodeCount t" by (simp add: topology_ok_def)
  with k show ?thesis by simp
qed

lemma case_row_step:
  assumes "\<And>r. row = Some r \<Longrightarrow> \<exists>B'. f r = Some B' \<and> P B'" and "P B"
  shows "\<exists>B'. (case row of Some r \<Rightarrow> f r | None \<Rightarrow> Some B) = Some B' \<and> P B'"
  using assms by (cases row) auto

lemma addConductance_square:
  assumes sq: "is_square m A"
    and r1: "\<And>r. row_of n1 = Some r \<Longrightarrow> r < m"
    and r2: "\<And>r. row_of n2 = Some r \<Longrightarrow> r < m"
  shows "\<exists>A'. addConductance n1 n2 g A = Some A' \<and> is_square m A'"
proof -
  have "\<exists>A1. (case row_of n1 of Some r1 \<Rightarrow> mat_upd A r1 r1 (\<lambda>v. v + g) | None \<Rightarrow> Some A)
            = Some A1 \<and> is_square m A1"
    by (rule case_row_step) (simp_all add: mat_upd_square [OF sq] r1 sq)
  then obtain A1 where A1:
    "(case row_of n1 of Some r1 \<Rightarrow> mat_upd A r1 r1 (\<lambda>v. v + g) | None \<Rightarrow> Some A) = Some A1"
    "is_square m A1" by blast
  have "\<exists>A2. (case row_of n2 of Some r2 \<Rightarrow> mat_upd A1 r2 r2 (\<lambda>v. v + g) | None \<Rightarrow> Some A1)
            = Some A2 \<and> is_square m A2"
    by (rule case_row_step) (simp_all add: mat_upd_square [OF A1(2)] r2 A1(2))
  then obtain A2 where A2:
    "(case row_of n2 of Some r2 \<Rightarrow> mat_upd A1 r2 r2 (\<lambda>v. v + g) | None \<Rightarrow> Some A1) = Some A2"
    "is_square m A2" by blast
  have "\<exists>A'. (case (row_of n1, row_of n2) of
        (Some r1, Some r2) \<Rightarrow> do {
           A3 \<leftarrow> mat_upd A2 r1 r2 (\<lambda>v. v - g);
           mat_upd A3 r2 r1 (\<lambda>v. v - g) }
      | _ \<Rightarrow> Some A2) = Some A' \<and> is_square m A'"
  proof (cases "row_of n1")
    case None
    then show ?thesis using A2(2) by simp
  next
    case a: (Some a)
    show ?thesis
    proof (cases "row_of n2")
      case None
      then show ?thesis using a A2(2) by simp
    next
      case b: (Some b)
      from a b r1 r2 have ab: "a < m" "b < m" by simp_all
      from mat_upd_square [OF A2(2) ab] obtain A3 where
        A3: "mat_upd A2 a b (\<lambda>v. v - g) = Some A3" "is_square m A3" by blast
      from mat_upd_square [OF A3(2) ab(2,1)] obtain A4 where
        "mat_upd A3 b a (\<lambda>v. v - g) = Some A4" "is_square m A4" by blast
      with A3 a b show ?thesis by simp
    qed
  qed
  with A1 A2 show ?thesis by (simp add: addConductance_def)
qed

lemma addCurrentSource_length:
  assumes r1: "\<And>r. row_of n1 = Some r \<Longrightarrow> r < length Z"
    and r2: "\<And>r. row_of n2 = Some r \<Longrightarrow> r < length Z"
  shows "\<exists>Z'. addCurrentSource n1 n2 i Z = Some Z' \<and> length Z' = length Z"
proof -
  have "\<exists>Z1. (case row_of n1 of Some r1 \<Rightarrow> vec_upd Z r1 (\<lambda>v. v - i) | None \<Rightarrow> Some Z)
            = Some Z1 \<and> length Z1 = length Z"
    by (rule case_row_step) (simp_all add: vec_upd_len r1)
  then obtain Z1 where Z1:
    "(case row_of n1 of Some r1 \<Rightarrow> vec_upd Z r1 (\<lambda>v. v - i) | None \<Rightarrow> Some Z) = Some Z1"
    "length Z1 = length Z" by blast
  have "\<exists>Z2. (case row_of n2 of Some r2 \<Rightarrow> vec_upd Z1 r2 (\<lambda>v. v + i) | None \<Rightarrow> Some Z1)
            = Some Z2 \<and> length Z2 = length Z"
  proof (rule case_row_step)
    fix r assume "row_of n2 = Some r"
    then have "r < length Z1" using r2 Z1(2) by simp
    from vec_upd_len [OF this] Z1(2)
    show "\<exists>B'. vec_upd Z1 r (\<lambda>v. v + i) = Some B' \<and> length B' = length Z" by simp
  qed (rule Z1(2))
  then obtain Z2 where
    "(case row_of n2 of Some r2 \<Rightarrow> vec_upd Z1 r2 (\<lambda>v. v + i) | None \<Rightarrow> Some Z1) = Some Z2"
    "length Z2 = length Z" by blast
  with Z1 show ?thesis by (simp add: addCurrentSource_def)
qed

lemma stamp_component_square:
  assumes ok: "topology_ok t" and m: "nodeCount t - 1 \<le> m" and sq: "square_system m AZ"
  shows "\<exists>AZ'. stamp_component t dt c AZ = Some AZ' \<and> square_system m AZ'"
proof -
  let ?n1 = "pointToNode t (pid (p1 c))" and ?n2 = "pointToNode t (pid (p2 c))"
  obtain g i where gi: "element_model dt c = (g, i)" by (cases "element_model dt c")
  from sq have A: "is_square m (fst AZ)" and Z: "length (snd AZ) = m"
    by (simp_all add: square_system_def)
  have b1: "\<And>r. row_of ?n1 = Some r \<Longrightarrow> r < m"
    and b2: "\<And>r. row_of ?n2 = Some r \<Longrightarrow> r < m"
    using row_of_bound [OF ok] m by fastforce+
  from addConductance_square [OF A b1 b2] obtain A' where
    A': "addConductance ?n1 ?n2 g (fst AZ) = Some A'" "is_square m A'" by blast
  from addCurrentSource_length [of ?n1 "snd AZ" ?n2 i] b1 b2 Z obtain Z' where
    Z': "addCurrentSource ?n1 ?n2 i (snd AZ) = Some Z'" "length Z' = m" by auto
  show ?thesis
    using sq gi A' Z' Z
    by (simp add: stamp_component_def Let_def square_system_def del: split_paired_Ex)
qed

lemma stamp_source_square:
  assumes ok: "topology_ok t" and idx: "(nodeCount t - 1) + fst ic < m"
    and sq: "square_system m AZ"
  shows "\<exists>AZ'. stamp_source t ic AZ = Some AZ' \<and> square_system m AZ'"
proof -
  let ?n1 = "pointToNode t (pid (p1 (snd ic)))" and ?n2 = "pointToNode t (pid (p2 (snd ic)))"
  let ?v = "(nodeCount t - 1) + fst ic"
  from sq have A: "is_square m (fst AZ)" and Z: "length (snd AZ) = m"
    by (simp_all add: square_system_def)
  have b1: "\<And>r. row_of ?n1 = Some r \<Longrightarrow> r < m"
    and b2: "\<And>r. row_of ?n2 = Some r \<Longrightarrow> r < m"
    using row_of_bound [OF ok] idx by fastforce+
  have step: "\<exists>B'. (case row_of n of
                 Some r \<Rightarrow> do { B1 \<leftarrow> mat_set B ?v r a; mat_set B1 r ?v a }
               | None \<Rightarrow> Some B) = Some B' \<and> is_square m B'"
    if "is_square m B" "\<And>r. row_of n = Some r \<Longrightarrow> r < m" for B n a
  proof (cases "row_of n")
    case None
    with that show ?thesis by simp
  next
    case (Some r)
    with that have r: "r < m" by simp
    from mat_set_square [OF that(1) idx r] obtain B1 where
      B1: "mat_set B ?v r a = Some B1" "is_square m B1" by blast
    from mat_set_square [OF B1(2) r idx] obtain B2 where
      "mat_set B1 r ?v a = Some B2" "is_square m B2" by blast
    with B1 Some show ?thesis by simp
  qed
  from step [OF A b1] obtain A1 where A1:
    "(case row_of ?n1 of
        Some r \<Rightarrow> do { B1 \<leftarrow> mat_set (fst AZ) ?v r 1; mat_set B1 r ?v 1 }
      | None \<Rightarrow> Some (fst AZ)) = Some A1" "is_square m A1" by blast
  from step [OF A1(2) b2] obtain A2 where A2:
    "(case row_of ?n2 of
        Some r \<Rightarrow> do { B1 \<leftarrow> mat_set A1 ?v r (- 1); mat_set B1 r ?v (- 1) }
      | None \<Rightarrow> Some A1) = Some A2" "is_square m A2" by blast
  have "vec_set (snd AZ) ?v a = Some ((snd AZ)[?v := a])" for a
    using idx Z by (simp add: vec_set_def)
  with A1 A2 Z show ?thesis
    by (simp add: stamp_source_def Let_def square_system_def del: split_paired_Ex One_nat_def)
qed

lemma assemble_square:
  assumes ok: "topology_ok t"
  shows "\<exists>AZ. assemble t dt components = Some AZ \<and> square_system (mSize t components) AZ"
proof -
  let ?m = "mSize t components"
  have m: "nodeCount t - 1 \<le> ?m" by (simp add: mSize_def)
  have init: "square_system ?m (replicate ?m (replicate ?m 0), replicate ?m 0)"
    by (simp add: square_system_def is_square_def)
  have "\<exists>AZ. for_loop components (stamp_component t dt)
               (replicate ?m (replicate ?m 0), replicate ?m 0) = Some AZ
             \<and> square_system ?m AZ"
  proof (rule for_loop_invariant [where I = "square_system ?m"])
    show "square_system ?m (replicate ?m (replicate ?m 0), replicate ?m 0)" by (rule init)
  next
    fix c s assume "square_system ?m s"
    with ok m show "\<exists>s'. stamp_component t dt c s = Some s' \<and> square_system ?m s'"
      by (rule stamp_component_square)
  qed
  then obtain AZ1 where AZ1: "for_loop components (stamp_component t dt)
               (replicate ?m (replicate ?m 0), replicate ?m 0) = Some AZ1"
      "square_system ?m AZ1" by blast
  have "\<exists>AZ. for_loop (enumerate 0 (voltageSources components)) (stamp_source t) AZ1 = Some AZ
             \<and> square_system ?m AZ"
  proof (rule for_loop_invariant [where I = "square_system ?m"])
    show "square_system ?m AZ1" by (rule AZ1(2))
  next
    fix ic s assume ic: "ic \<in> set (enumerate 0 (voltageSources components))"
      and s: "square_system ?m s"
    from ic have "fst ic < length (voltageSources components)"
      by (simp add: in_set_enumerate_eq)
    then have "(nodeCount t - 1) + fst ic < ?m" by (simp add: mSize_def)
    with ok show "\<exists>s'. stamp_source t ic s = Some s' \<and> square_system ?m s'"
      using s by (rule stamp_source_square)
  qed
  with AZ1 show ?thesis by (simp add: assemble_def Let_def del: split_paired_Ex)
qed

section \<open>Claims about the size of the system\<close>

lemma nodeCount_positive:
  assumes "components \<noteq> []"
  shows "nodeCount (resolve_topology components) \<noteq> 0"
proof -
  from assms obtain c where "c \<in> set components" by (cases components) auto
  from resolve_topology_node [OF this] show ?thesis by auto
qed

lemma solve_system_square:
  "\<exists>AZ x. assemble (resolve_topology components) dt components = Some AZ
      \<and> square_system (mSize (resolve_topology components) components) AZ
      \<and> gaussianElimination (fst AZ) (snd AZ) = Some x
      \<and> length x = mSize (resolve_topology components) components"
proof -
  from assemble_square [OF resolve_topology_ok] obtain AZ where
    AZ: "assemble (resolve_topology components) dt components = Some AZ"
      "square_system (mSize (resolve_topology components) components) AZ" by blast
  from gaussianElimination_square [of _ "fst AZ" "snd AZ"] AZ(2) obtain x where
    "gaussianElimination (fst AZ) (snd AZ) = Some x"
    "length x = mSize (resolve_topology components) components" by auto
  with AZ show ?thesis by blast
qed

text \<open>
  C2.  For every element list, the system assembled from the resolved topology has
  \<open>m = (nodeCount - 1) + (number of Battery elements)\<close> unknowns: assembly returns a
  matrix \<open>A\<close> of \<open>m\<close> rows of \<open>m\<close> cells and a right-hand side \<open>Z\<close> of length
  \<open>m\<close>, the solver returns a vector of length \<open>m\<close> on them, and for a non-empty list
  this vector is the one result extraction receives in \<open>solveCircuit\<close>.
\<close>

theorem assembled_system_size:
  "let t = resolve_topology components;
       m = (nodeCount t - 1) + length (filter (\<lambda>c. ctype c = BATTERY) components)
   in \<exists>A Z x. assemble t dt components = Some (A, Z)
        \<and> length A = m \<and> (\<forall>row \<in> set A. length row = m) \<and> length Z = m
        \<and> gaussianElimination A Z = Some x \<and> length x = m
        \<and> (components \<noteq> [] \<longrightarrow>
             solveCircuit components dt = Some (extract_results t dt components x))"
proof -
  let ?t = "resolve_topology components"
  from solve_system_square [of components dt] obtain AZ x where
    *: "assemble ?t dt components = Some AZ" "square_system (mSize ?t components) AZ"
       "gaussianElimination (fst AZ) (snd AZ) = Some x" "length x = mSize ?t components"
    by blast
  have "components \<noteq> [] \<longrightarrow>
          solveCircuit components dt = Some (extract_results ?t dt components x)"
  proof
    assume "components \<noteq> []"
    then have "nodeCount ?t \<noteq> 0" by (rule nodeCount_positive)
    with * show "solveCircuit components dt = Some (extract_results ?t dt components x)"
      by (simp add: solveCircuit_def Let_def)
  qed
  with * show ?thesis
    unfolding Let_def
    by (intro exI [of _ "fst AZ"] exI [of _ "snd AZ"] exI [of _ x])
       (simp add: square_system_def is_square_def mSize_def voltageSources_def)
qed

lemma simple_loop_nodes: "nodeCount (resolve_topology simple_loop) = 2"
  by (simp add: resolve_topology_def points_of_def simple_loop_def createComp_def
      topology_init_def hypot_less_snap)

lemma simple_loop_sources: "length (filter (\<lambda>c. ctype c = BATTERY) simple_loop) = 1"
  by (simp add: simple_loop_def createComp_def)

theorem assembled_system_size_witness:
  "\<exists>A Z x. assemble (resolve_topology simple_loop) (1 / 20) simple_loop = Some (A, Z)
      \<and> length A = 2 \<and> (\<forall>row \<in> set A. length row = 2) \<and> length Z = 2
      \<and> gaussianElimination A Z = Some x \<and> length x = 2
      \<and> (simple_loop \<noteq> [] \<longrightarrow>
           solveCircuit simple_loop (1 / 20)
             = Some (extract_results (resolve_topology simple_loop) (1 / 20) simple_loop x))"
  using assembled_system_size [of simple_loop "1 / 20"]
  by (simp add: Let_def simple_loop_nodes simple_loop_sources numeral_2_eq_2)

section \<open>Claims about the solver as a whole\<close>

lemma fold_dom_mono:
  assumes "\<And>x m. dom m \<subseteq> dom (f x m)"
  shows "dom m \<subseteq> dom (fold f xs m)"
proof (induction xs arbitrary: m)
  case Nil
  then show ?case by simp
next
  case (Cons x xs)
  have "dom m \<subseteq> dom (f x m)" by (rule assms)
  also have "\<dots> \<subseteq> dom (fold f xs (f x m))" by (rule Cons.IH)
  finally show ?case by simp
qed

lemma fold_dom_member:
  assumes mono: "\<And>x m. dom m \<subseteq> dom (f x m)"
    and x: "x \<in> set xs" and k: "\<And>m. k \<in> dom (f x m)"
  shows "k \<in> dom (fold f xs m)"
  using x
proof (induction xs arbitrary: m)
  case Nil
  then show ?case by simp
next
  case (Cons y ys)
  show ?case
  proof (cases "x = y")
    case True
    have "k \<in> dom (f y m)" using k True by simp
    then show ?thesis using fold_dom_mono [of f "f y m" ys, OF mono] by auto
  next
    case False
    with Cons.prems have "x \<in> set ys" by simp
    then show ?thesis using Cons.IH by simp
  qed
qed

lemma findIndex_Some:
  assumes "x \<in> set xs" "P x"
  shows "\<exists>k. findIndex P xs = Some k"
  using assms by (induction xs) auto

lemma component_current_Some:
  assumes "c \<in> set components"
  shows "\<exists>i. component_current t dt (voltageSources components) x np c = Some i"
proof (cases "ctype c = BATTERY")
  case True
  with assms have "c \<in> set (voltageSources components)" by (simp add: voltageSources_def)
  from findIndex_Some [OF this, of "\<lambda>v. cid v = cid c"] obtain k where
    "findIndex (\<lambda>v. cid v = cid c) (voltageSources components) = Some k" by auto
  with True show ?thesis by (simp add: component_current_def Let_def)
next
  case False
  then show ?thesis by (simp add: component_current_def Let_def)
qed

lemma point_potentials_dom:
  assumes "c \<in> set components"
  shows "pid (p1 c) \<in> dom (point_potentials t np components)"
    and "pid (p2 c) \<in> dom (point_potentials t np components)"
  unfolding point_potentials_def
  by (rule fold_dom_member [OF _ assms]; auto simp: Let_def)+

lemma component_currents_dom:
  assumes "c \<in> set components"
  shows "cid c \<in> dom (component_currents t dt components x np)"
  unfolding component_currents_def
proof (rule fold_dom_member [OF _ assms])
  fix m :: "string \<rightharpoonup> real"
  from component_current_Some [OF assms] obtain i where
    "component_current t dt (voltageSources components) x np c = Some i" by blast
  then show "cid c \<in> dom (case component_current t dt (voltageSources components) x np c of
                            None \<Rightarrow> m | Some i \<Rightarrow> m(cid c \<mapsto> i))" by simp
qed (auto split: option.splits)

lemma solveCircuit_empty:
  "solveCircuit [] dt = Some \<lparr>pointPotentials = Map.empty, componentCurrents = Map.empty\<rparr>"
  by (simp add: solveCircuit_def resolve_topology_empty topology_init_def)

lemma solveCircuit_nonempty:
  assumes "components \<noteq> []"
  shows "\<exists>x. length x = mSize (resolve_topology components) components
           \<and> solveCircuit components dt
               = Some (extract_results (resolve_topology components) dt components x)"
proof -
  from solve_system_square [of components dt] obtain AZ x where
    *: "assemble (resolve_topology components) dt components = Some AZ"
       "gaussianElimination (fst AZ) (snd AZ) = Some x"
       "length x = mSize (resolve_topology components) components"
    by blast
  from assms have "nodeCount (resolve_topology components) \<noteq> 0" by (rule nodeCount_positive)
  with * have "solveCircuit components dt
               = Some (extract_results (resolve_topology components) dt components x)"
    by (simp add: solveCircuit_def Let_def)
  with *(3) show ?thesis by blast
qed

text \<open>
  C7.  For every element list and every time step \<open>solveCircuit\<close> returns a result (it
  never throws): the result holds a potential for both terminal identifiers and a current
  for the identifier of every element of the input.  On the empty list both maps are empty.
\<close>

theorem solveCircuit_total:
  "(\<exists>res. solveCircuit components dt = Some res
      \<and> (\<forall>c \<in> set components.
            pid (p1 c) \<in> dom (pointPotentials res) \<and> pid (p2 c) \<in> dom (pointPotentials res)
            \<and> cid c \<in> dom (componentCurrents res)))
   \<and> solveCircuit [] dt
       = Some \<lparr>pointPotentials = Map.empty, componentCurrents = Map.empty\<rparr>"
proof (intro conjI)
  show "\<exists>res. solveCircuit components dt = Some res
      \<and> (\<forall>c \<in> set components.
            pid (p1 c) \<in> dom (pointPotentials res) \<and> pid (p2 c) \<in> dom (pointPotentials res)
            \<and> cid c \<in> dom (componentCurrents res))"
  proof (cases "components = []")
    case True
    then show ?thesis by (simp add: solveCircuit_empty)
  next
    case False
    from solveCircuit_nonempty [OF this, of dt] obtain x where
      "solveCircuit components dt
         = Some (extract_results (resolve_topology components) dt components x)" by blast
    then show ?thesis
      by (simp add: extract_results_def Let_def point_potentials_dom component_currents_dom)
  qed
qed (rule solveCircuit_empty)

theorem solveCircuit_total_witness:
  "\<exists>res. solveCircuit simple_loop (1 / 20) = Some res
      \<and> {''b-p1'', ''b-p2'', ''r-p1'', ''r-p2''} \<subseteq> dom (pointPotentials res)
      \<and> {''b'', ''r''} \<subseteq> dom (componentCurrents res)"
  using solveCircuit_total [of simple_loop "1 / 20"]
  by (auto simp: simple_loop_def createComp_def)

section \<open>Claims about the element model\<close>

lemma or_default_unset [simp]: "or_default None d = d"
  by (simp add: or_default_def)

lemma or_default_zero [simp]: "or_default (Some 0) d = d"
  by (simp add: or_default_def)

lemma or_default_nonzero: "v \<noteq> 0 \<Longrightarrow> or_default (Some v) d = v"
  by (simp add: or_default_def)

lemma addCurrentSource_entries:
  assumes k1: "k1 \<le> length Z" and k2: "k2 \<le> length Z"
  shows "\<exists>Z'. addCurrentSource (Some k1) (Some k2) i Z = Some Z' \<and> length Z' = length Z
           \<and> (\<forall>j<length Z. Z' ! j = Z ! j - (if k1 = Suc j then i else 0)
                                         + (if k2 = Suc j then i else 0))"
proof -
  define Z1 where "Z1 = (if k1 > 0 then Z[k1 - 1 := Z ! (k1 - 1) - i] else Z)"
  define Z2 where "Z2 = (if k2 > 0 then Z1[k2 - 1 := Z1 ! (k2 - 1) + i] else Z1)"
  have len: "length Z1 = length Z" "length Z2 = length Z" by (simp_all add: Z1_def Z2_def)
  have s1: "(case row_of (Some k1) of Some r1 \<Rightarrow> vec_upd Z r1 (\<lambda>v. v - i) | None \<Rightarrow> Some Z)
              = Some Z1"
    using k1 by (auto simp: row_of_def vec_upd_def vec_get_def vec_set_def Z1_def)
  have s2: "(case row_of (Some k2) of Some r2 \<Rightarrow> vec_upd Z1 r2 (\<lambda>v. v + i) | None \<Rightarrow> Some Z1)
              = Some Z2"
    using k2 len by (auto simp: row_of_def vec_upd_def vec_get_def vec_set_def Z2_def)
  have run: "addCurrentSource (Some k1) (Some k2) i Z = Some Z2"
    by (simp add: addCurrentSource_def s1 s2)
  have "Z2 ! j = Z ! j - (if k1 = Suc j then i else 0) + (if k2 = Suc j then i else 0)"
    if "j < length Z" for j
    using that k1 k2 by (auto simp: Z1_def Z2_def nth_list_update)
  with run len show ?thesis by blast
qed

text \<open>
  C1.  For a Capacitor whose terminals resolve to distinct nodes, the component loop stamps
  the conductance \<open>G = C / dt\<close> and the parallel current source
  \<open>I = - G * (prevP1Potential - prevP2Potential)\<close> when \<open>dt > 0\<close>, and \<open>G = 1 / 1e9\<close>
  with \<open>I = 0\<close> otherwise, where \<open>C\<close> is \<open>1e-4\<close> when unset.  For such an Inductor,
  \<open>G = dt / L\<close> and \<open>I = prevCurrent\<close> when \<open>dt > 0\<close>, and \<open>G = 1 / 1e-6\<close> with
  \<open>I = 0\<close> otherwise, where \<open>L\<close> is \<open>1\<close> when unset.  A current source \<open>i\<close> stamped
  between the nodes \<open>k1\<close> and \<open>k2\<close> subtracts \<open>i\<close> from the right-hand-side entry of
  \<open>k1\<close> and adds it to the entry of \<open>k2\<close>; ground (node \<open>0\<close>) has no entry.  A source
  of value \<open>0\<close> is not stamped, which leaves the same right-hand side.
\<close>

theorem reactive_element_stamps:
  assumes "n1 = pointToNode t (pid (p1 c))" and "n2 = pointToNode t (pid (p2 c))"
    and "n1 \<noteq> n2"
  shows "(ctype c = CAPACITOR \<longrightarrow>
            (let C = or_default (capacitance (properties c)) (1 / 10 ^ 4);
                 G = (if dt > 0 then C / dt else 1 / 10 ^ 9);
                 I = (if dt > 0
                      then - G * (or_default (prevP1Potential c) 0
                                  - or_default (prevP2Potential c) 0)
                      else 0)
             in element_model dt c = (G, I)
                \<and> stamp_component t dt c (A, Z)
                    = do { A' \<leftarrow> addConductance n1 n2 G A;
                           Z' \<leftarrow> (if I \<noteq> 0 then addCurrentSource n1 n2 I Z else Some Z);
                           Some (A', Z') }))
       \<and> (ctype c = INDUCTOR \<longrightarrow>
            (let L = or_default (inductance (properties c)) 1;
                 G = (if dt > 0 then dt / L else 1 / (1 / 10 ^ 6));
                 I = (if dt > 0 then or_default (prevCurrent c) 0 else 0)
             in element_model dt c = (G, I)
                \<and> stamp_component t dt c (A, Z)
                    = do { A' \<leftarrow> addConductance n1 n2 G A;
                           Z' \<leftarrow> (if I \<noteq> 0 then addCurrentSource n1 n2 I Z else Some Z);
                           Some (A', Z') }))
       \<and> or_default None (1 / 10 ^ 4) = 1 / 10 ^ 4 \<and> or_default None 1 = 1
       \<and> (\<forall>k1 k2 i. k1 \<le> length Z \<and> k2 \<le> length Z \<longrightarrow>
            (\<exists>Z'. addCurrentSource (Some k1) (Some k2) i Z = Some Z' \<and> length Z' = length Z
               \<and> (\<forall>j<length Z. Z' ! j = Z ! j - (if k1 = Suc j then i else 0)
                                             + (if k2 = Suc j then i else 0))))"
proof (intro conjI impI allI)
  assume cap: "ctype c = CAPACITOR"
  then have "element_model dt c =
      (let C = or_default (capacitance (properties c)) (1 / 10 ^ 4);
           G = (if dt > 0 then C / dt else 1 / 10 ^ 9);
           I = (if dt > 0
                then - G * (or_default (prevP1Potential c) 0 - or_default (prevP2Potential c) 0)
                else 0)
       in (G, I))"
    by (simp add: element_model_def Let_def INFINITE_RESISTANCE_def)
  with cap assms
  show "let C = or_default (capacitance (properties c)) (1 / 10 ^ 4);
            G = (if dt > 0 then C / dt else 1 / 10 ^ 9);
            I = (if dt > 0
                 then - G * (or_default (prevP1Potential c) 0 - or_default (prevP2Potential c) 0)
                 else 0)
        in element_model dt c = (G, I)
           \<and> stamp_component t dt c (A, Z)
               = do { A' \<leftarrow> addConductance n1 n2 G A;
                      Z' \<leftarrow> (if I \<noteq> 0 then addCurrentSource n1 n2 I Z else Some Z);
                      Some (A', Z') }"
    by (simp add: stamp_component_def Let_def)
next
  assume ind: "ctype c = INDUCTOR"
  then have "element_model dt c =
      (let L = or_default (inductance (properties c)) 1;
           G = (if dt > 0 then dt / L else 1 / (1 / 10 ^ 6));
           I = (if dt > 0 then or_default (prevCurrent c) 0 else 0)
       in (G, I))"
    by (simp add: element_model_def Let_def EPSILON_RESISTANCE_def)
  with ind assms
  show "let L = or_default (inductance (properties c)) 1;
            G = (if dt > 0 then dt / L else 1 / (1 / 10 ^ 6));
            I = (if dt > 0 then or_default (prevCurrent c) 0 else 0)
        in element_model dt c = (G, I)
           \<and> stamp_component t dt c (A, Z)
               = do { A' \<leftarrow> addConductance n1 n2 G A;
                      Z' \<leftarrow> (if I \<noteq> 0 then addCurrentSource n1 n2 I Z else Some Z);
                      Some (A', Z') }"
    by (simp add: stamp_component_def Let_def)
next
  fix k1 k2 i assume "k1 \<le> length Z \<and> k2 \<le> length Z"
  then show "\<exists>Z'. addCurrentSource (Some k1) (Some k2) i Z = Some Z' \<and> length Z' = length Z
               \<and> (\<forall>j<length Z. Z' ! j = Z ! j - (if k1 = Suc j then i else 0)
                                             + (if k2 = Suc j then i else 0))"
    by (simp add: addCurrentSource_entries)
qed simp_all

lemma rc_loop_nodes:
  "nodeCount (resolve_topology rc_loop) = 4"
  "pointToNode (resolve_topology rc_loop) ''c-p1'' = Some 2"
  "pointToNode (resolve_topology rc_loop) ''c-p2'' = Some 3"
  by (simp_all add: resolve_topology_def points_of_def rc_loop_def charged_capacitor_def
      createComp_def topology_init_def hypot_less_snap)

lemma rl_loop_nodes:
  "nodeCount (resolve_topology rl_loop) = 4"
  "pointToNode (resolve_topology rl_loop) ''l-p1'' = Some 2"
  "pointToNode (resolve_topology rl_loop) ''l-p2'' = Some 3"
  by (simp_all add: resolve_topology_def points_of_def rl_loop_def energised_inductor_def
      createComp_def topology_init_def hypot_less_snap)

lemma stamp_pair_example:
  "do { A' \<leftarrow> addConductance (Some 2) (Some 3) g [[0, 0, 0, 0], [0, 0, 0, 0], [0, 0, 0, 0], [0, 0, 0, 0]];
        Z' \<leftarrow> addCurrentSource (Some 2) (Some 3) i [0, 0, 0, 0];
        Some (A', Z') }
   = Some ([[0, 0, 0, 0], [0, g, - g, 0], [0, - g, g, 0], [0, 0, 0, 0]], [0, - i, i, 0])"
  by (simp add: addConductance_def addCurrentSource_def row_of_def mat_upd_def mat_get_def
      mat_set_def vec_upd_def vec_get_def vec_set_def numeral_eq_Suc)

theorem reactive_element_stamps_witness:
  "element_model (1 / 20) charged_capacitor = (1 / 50, - (3 / 50))
   \<and> stamp_component (resolve_topology rc_loop) (1 / 20) charged_capacitor
        ([[0, 0, 0, 0], [0, 0, 0, 0], [0, 0, 0, 0], [0, 0, 0, 0]], [0, 0, 0, 0])
      = Some ([[0, 0, 0, 0], [0, 1 / 50, - (1 / 50), 0], [0, - (1 / 50), 1 / 50, 0],
               [0, 0, 0, 0]],
              [0, 3 / 50, - (3 / 50), 0])
   \<and> element_model (1 / 20) energised_inductor = (1 / 20, 1 / 2)
   \<and> stamp_component (resolve_topology rl_loop) (1 / 20) energised_inductor
        ([[0, 0, 0, 0], [0, 0, 0, 0], [0, 0, 0, 0], [0, 0, 0, 0]], [0, 0, 0, 0])
      = Some ([[0, 0, 0, 0], [0, 1 / 20, - (1 / 20), 0], [0, - (1 / 20), 1 / 20, 0],
               [0, 0, 0, 0]],
              [0, - (1 / 2), 1 / 2, 0])
   \<and> (\<exists>Z'. addCurrentSource (Some 2) (Some 0) 7 [0, 0, 0, 0] = Some Z'
         \<and> Z' ! 0 = 0 \<and> Z' ! 1 = - 7 \<and> Z' ! 2 = 0 \<and> Z' ! 3 = 0)"
proof -
  have c: "ctype charged_capacitor = CAPACITOR"
    "pid (p1 charged_capacitor) = ''c-p1''" "pid (p2 charged_capacitor) = ''c-p2''"
    "capacitance (properties charged_capacitor) = Some (1 / 1000)"
    "prevP1Potential charged_capacitor = Some 5" "prevP2Potential charged_capacitor = Some 2"
    by (simp_all add: charged_capacitor_def createComp_def)
  have l: "ctype energised_inductor = INDUCTOR"
    "pid (p1 energised_inductor) = ''l-p1''" "pid (p2 energised_inductor) = ''l-p2''"
    "inductance (properties energised_inductor) = Some 1"
    "prevCurrent energised_inductor = Some (1 / 2)"
    by (simp_all add: energised_inductor_def createComp_def)
  have "Some (2::nat) \<noteq> Some 3" by simp
  from reactive_element_stamps [where t = "resolve_topology rc_loop" and c = charged_capacitor
      and dt = "1 / 20" and A = "[[0, 0, 0, 0], [0, 0, 0, 0], [0, 0, 0, 0], [0, 0, 0, 0]]"
      and Z = "[0, 0, 0, 0]", OF refl refl, unfolded c rc_loop_nodes, OF this]
  have cap: "element_model (1 / 20) charged_capacitor = (1 / 50, - (3 / 50))
   \<and> stamp_component (resolve_topology rc_loop) (1 / 20) charged_capacitor
        ([[0, 0, 0, 0], [0, 0, 0, 0], [0, 0, 0, 0], [0, 0, 0, 0]], [0, 0, 0, 0])
      = Some ([[0, 0, 0, 0], [0, 1 / 50, - (1 / 50), 0], [0, - (1 / 50), 1 / 50, 0],
               [0, 0, 0, 0]],
              [0, 3 / 50, - (3 / 50), 0])"
    using stamp_pair_example [of "1 / 50" "- (3 / 50)"]
    by (simp add: Let_def or_default_nonzero)
  have "Some (2::nat) \<noteq> Some 3" by simp
  from reactive_element_stamps [where t = "resolve_topology rl_loop" and c = energised_inductor
      and dt = "1 / 20" and A = "[[0, 0, 0, 0], [0, 0, 0, 0], [0, 0, 0, 0], [0, 0, 0, 0]]"
      and Z = "[0, 0, 0, 0]", OF refl refl, unfolded l rl_loop_nodes, OF this]
  have ind: "element_model (1 / 20) energised_inductor = (1 / 20, 1 / 2)
   \<and> stamp_component (resolve_topology rl_loop) (1 / 20) energised_inductor
        ([[0, 0, 0, 0], [0, 0, 0, 0], [0, 0, 0, 0], [0, 0, 0, 0]], [0, 0, 0, 0])
      = Some ([[0, 0, 0, 0], [0, 1 / 20, - (1 / 20), 0], [0, - (1 / 20), 1 / 20, 0],
               [0, 0, 0, 0]],
              [0, - (1 / 2), 1 / 2, 0])"
    using stamp_pair_example [of "1 / 20" "1 / 2"]
    by (simp add: Let_def or_default_nonzero)
  have "Some (2::nat) \<noteq> Some 3" by simp
  from reactive_element_stamps [where t = "resolve_topology rl_loop" and c = energised_inductor
      and dt = "1 / 20" and A = "[]" and Z = "[0, 0, 0, 0]", OF refl refl,
      unfolded l rl_loop_nodes, OF this]
  have "\<forall>k1 k2 i. k1 \<le> length [0, 0, 0, 0 :: real] \<and> k2 \<le> length [0, 0, 0, 0 :: real] \<longrightarrow>
            (\<exists>Z'. addCurrentSource (Some k1) (Some k2) i [0, 0, 0, 0] = Some Z'
               \<and> length Z' = length [0, 0, 0, 0 :: real]
               \<and> (\<forall>j<length [0, 0, 0, 0 :: real].
                     Z' ! j = [0, 0, 0, 0] ! j - (if k1 = Suc j then i else 0)
                                + (if k2 = Suc j then i else 0)))"
    by blast
  from this [rule_format, of 2 0 7]
  have src: "\<exists>Z'. addCurrentSource (Some 2) (Some 0) 7 [0, 0, 0, 0] = Some Z'
         \<and> Z' ! 0 = 0 \<and> Z' ! 1 = - 7 \<and> Z' ! 2 = 0 \<and> Z' ! 3 = 0"
    by (auto simp: numeral_eq_Suc less_Suc_eq)
  from cap ind src show ?thesis by simp
qed

section \<open>Claims about result extraction\<close>

lemma fold_assign_other:
  assumes "k \<notin> key ` set xs"
  shows "fold (\<lambda>c m. case val c of Some i \<Rightarrow> m(key c \<mapsto> i) | None \<Rightarrow> m) xs m k = m k"
  using assms by (induction xs arbitrary: m) (auto split: option.splits)

lemma fold_assign_distinct:
  assumes "distinct (map key xs)" "x \<in> set xs"
  shows "fold (\<lambda>c m. case val c of Some i \<Rightarrow> m(key c \<mapsto> i) | None \<Rightarrow> m) xs m (key x)
           = (case val x of Some i \<Rightarrow> Some i | None \<Rightarrow> m (key x))"
  using assms
proof (induction xs arbitrary: m)
  case Nil
  then show ?case by simp
next
  case (Cons y ys)
  show ?case
  proof (cases "x = y")
    case True
    with Cons.prems have "key x \<notin> key ` set ys" by auto
    from fold_assign_other [OF this, of val] True show ?thesis
      by (simp split: option.splits)
  next
    case False
    with Cons.prems have x: "x \<in> set ys" and d: "distinct (map key ys)"
      and ne: "key y \<noteq> key x" by auto
    from Cons.IH [OF d x] ne show ?thesis by (auto split: option.splits)
  qed
qed

lemma component_currents_value:
  assumes "distinct (map cid components)" "c \<in> set components"
  shows "component_currents t dt components x np (cid c)
           = component_current t dt (voltageSources components) x np c"
proof -
  from component_current_Some [OF assms(2)] obtain i where
    "component_current t dt (voltageSources components) x np c = Some i" by blast
  with fold_assign_distinct [OF assms,
      of "component_current t dt (voltageSources components) x np" Map.empty]
  show ?thesis by (simp add: component_currents_def)
qed

lemma point_potentials_value:
  "point_potentials t np components k
     = (if k \<in> pid ` p1 ` set components \<union> pid ` p2 ` set components
        then Some (potential_at np (pointToNode t k)) else None)"
proof -
  have "fold (\<lambda>c m.
             let n1 = pointToNode t (pid (p1 c));
                 n2 = pointToNode t (pid (p2 c))
             in (m(pid (p1 c) \<mapsto> potential_at np n1))(pid (p2 c) \<mapsto> potential_at np n2))
          components m k
     = (if k \<in> pid ` p1 ` set components \<union> pid ` p2 ` set components
        then Some (potential_at np (pointToNode t k)) else m k)" for m
    by (induction components arbitrary: m) (auto simp: Let_def)
  then show ?thesis by (simp add: point_potentials_def)
qed

lemma findIndex_distinct:
  assumes "distinct (map key xs)" "x \<in> set xs"
  shows "\<exists>k<length xs. findIndex (\<lambda>v. key v = key x) xs = Some k \<and> xs ! k = x"
  using assms
proof (induction xs)
  case Nil
  then show ?case by simp
next
  case (Cons y ys)
  show ?case
  proof (cases "x = y")
    case True
    then show ?thesis by auto
  next
    case False
    with Cons.prems have x: "x \<in> set ys" and d: "distinct (map key ys)"
      and ne: "key y \<noteq> key x" by auto
    from Cons.IH [OF d x] obtain k where
      "k < length ys" "findIndex (\<lambda>v. key v = key x) ys = Some k" "ys ! k = x" by blast
    with ne show ?thesis by (intro exI [of _ "Suc k"]) simp
  qed
qed

lemma battery_index:
  assumes "distinct (map cid components)" "c \<in> set components" "ctype c = BATTERY"
  shows "\<exists>k<length (voltageSources components).
           findIndex (\<lambda>v. cid v = cid c) (voltageSources components) = Some k
           \<and> voltageSources components ! k = c"
proof -
  have "distinct (map cid (voltageSources components))"
    using assms(1) by (simp add: voltageSources_def distinct_map_filter)
  moreover have "c \<in> set (voltageSources components)"
    using assms(2,3) by (simp add: voltageSources_def)
  ultimately show ?thesis by (rule findIndex_distinct)
qed

lemma extracted_potentials:
  assumes "c \<in> set components"
  shows "pointPotentials (extract_results t dt components x) (pid (p1 c))
           = Some (potential_at (nodePotentials t x) (pointToNode t (pid (p1 c))))"
    and "pointPotentials (extract_results t dt components x) (pid (p2 c))
           = Some (potential_at (nodePotentials t x) (pointToNode t (pid (p2 c))))"
  using assms by (auto simp: extract_results_def Let_def point_potentials_value)

lemma extracted_current:
  assumes c: "c \<in> set components" and d: "distinct (map cid components)"
    and x: "length x = mSize t components"
    and V: "V1 = potential_at (nodePotentials t x) (pointToNode t (pid (p1 c)))"
           "V2 = potential_at (nodePotentials t x) (pointToNode t (pid (p2 c)))"
    and res: "res = extract_results t dt components x"
  shows "(ctype c = BATTERY \<longrightarrow>
            (\<exists>k<length (voltageSources components). voltageSources components ! k = c
               \<and> componentCurrents res (cid c) = Some (x ! ((nodeCount t - 1) + k))))
       \<and> (ctype c = CAPACITOR \<longrightarrow>
            componentCurrents res (cid c)
              = Some (if dt > 0
                      then (or_default (capacitance (properties c)) (1 / 10 ^ 4) / dt)
                           * ((V1 - V2) - (or_default (prevP1Potential c) 0
                                            - or_default (prevP2Potential c) 0))
                      else 0))
       \<and> (ctype c = INDUCTOR \<longrightarrow>
            componentCurrents res (cid c)
              = Some (if dt > 0
                      then or_default (prevCurrent c) 0
                           + (V1 - V2) * (dt / or_default (inductance (properties c)) 1)
                      else (V1 - V2) / (1 / 10 ^ 6)))
       \<and> (ctype c = WIRE \<or> ctype c = AMMETER
            \<or> (ctype c = SWITCH \<and> \<not> truthy (isOpen (properties c))) \<longrightarrow>
            componentCurrents res (cid c) = Some ((V1 - V2) / (1 / 10 ^ 6)))
       \<and> (ctype c = VOLTMETER \<or> (ctype c = SWITCH \<and> truthy (isOpen (properties c))) \<longrightarrow>
            componentCurrents res (cid c) = Some ((V1 - V2) / 10 ^ 9))
       \<and> (ctype c = RESISTOR \<or> ctype c = LIGHTBULB \<longrightarrow>
            componentCurrents res (cid c)
              = Some ((V1 - V2) / or_default (resistance (properties c)) 10))"
proof -
  have cur: "componentCurrents res (cid c)
               = component_current t dt (voltageSources components) x (nodePotentials t x) c"
    using component_currents_value [OF d c] by (simp add: res extract_results_def Let_def)
  have bat: "\<exists>k<length (voltageSources components). voltageSources components ! k = c
               \<and> componentCurrents res (cid c) = Some (x ! ((nodeCount t - 1) + k))"
    if "ctype c = BATTERY"
  proof -
    from battery_index [OF d c that] obtain k where
      k: "k < length (voltageSources components)"
         "findIndex (\<lambda>v. cid v = cid c) (voltageSources components) = Some k"
         "voltageSources components ! k = c" by blast
    from k(1) x have "(nodeCount t - 1) + k < length x" by (simp add: mSize_def)
    then have "vec_or0 x ((nodeCount t - 1) + k) = x ! ((nodeCount t - 1) + k)"
      by (simp add: vec_or0_def)
    with k that have "componentCurrents res (cid c) = Some (x ! ((nodeCount t - 1) + k))"
      by (simp add: cur component_current_def Let_def)
    with k show ?thesis by blast
  qed
  show ?thesis
  proof (cases "ctype c")
    case BATTERY
    with bat show ?thesis by simp
  qed (simp_all add: cur component_current_def Let_def V EPSILON_RESISTANCE_def
        INFINITE_RESISTANCE_def)
qed

lemma solveCircuit_run:
  assumes "components \<noteq> []"
  shows "\<exists>AZ x. assemble (resolve_topology components) dt components = Some AZ
           \<and> gaussianElimination (fst AZ) (snd AZ) = Some x
           \<and> length x = mSize (resolve_topology components) components
           \<and> solveCircuit components dt
               = Some (extract_results (resolve_topology components) dt components x)"
proof -
  from solve_system_square [of components dt] obtain AZ x where
    *: "assemble (resolve_topology components) dt components = Some AZ"
       "gaussianElimination (fst AZ) (snd AZ) = Some x"
       "length x = mSize (resolve_topology components) components"
    by blast
  from assms have "nodeCount (resolve_topology components) \<noteq> 0" by (rule nodeCount_positive)
  with * have "solveCircuit components dt
               = Some (extract_results (resolve_topology components) dt components x)"
    by (simp add: solveCircuit_def Let_def)
  with * show ?thesis by blast
qed

text \<open>
  C5.  For an element list with pairwise distinct element identifiers, the current that
  \<open>solveCircuit\<close> returns for an element depends on its type.  With \<open>V1\<close> and \<open>V2\<close> the
  returned potentials of its two terminals and \<open>x\<close> the solution vector: a Battery that
  is the \<open>k\<close>-th voltage source gets the unknown \<open>x[(nodeCount - 1) + k]\<close>, the branch
  current of its own row; a Capacitor gets \<open>(C / dt) * ((V1 - V2) - Vprev)\<close> when
  \<open>dt > 0\<close> and \<open>0\<close> otherwise; an Inductor gets \<open>Iprev + (V1 - V2) * (dt / L)\<close> when
  \<open>dt > 0\<close> and \<open>(V1 - V2) / 1e-6\<close> otherwise; every other element gets
  \<open>(V1 - V2) / R\<close> with \<open>R = 1e-6\<close> for a wire, an ammeter and a closed switch,
  \<open>R = 1e9\<close> for an open switch and a voltmeter, and the configured resistance (default
  \<open>10\<close>) for a resistor and a lightbulb.
\<close>

theorem component_current_by_type:
  assumes "distinct (map cid components)" and "c \<in> set components"
    and "t = resolve_topology components"
  shows "\<exists>AZ x res V1 V2.
       assemble t dt components = Some AZ \<and> gaussianElimination (fst AZ) (snd AZ) = Some x
     \<and> solveCircuit components dt = Some res
     \<and> pointPotentials res (pid (p1 c)) = Some V1 \<and> pointPotentials res (pid (p2 c)) = Some V2
     \<and> (ctype c = BATTERY \<longrightarrow>
            (\<exists>k<length (voltageSources components). voltageSources components ! k = c
               \<and> componentCurrents res (cid c) = Some (x ! ((nodeCount t - 1) + k))))
     \<and> (ctype c = CAPACITOR \<longrightarrow>
            componentCurrents res (cid c)
              = Some (if dt > 0
                      then (or_default (capacitance (properties c)) (1 / 10 ^ 4) / dt)
                           * ((V1 - V2) - (or_default (prevP1Potential c) 0
                                            - or_default (prevP2Potential c) 0))
                      else 0))
     \<and> (ctype c = INDUCTOR \<longrightarrow>
            componentCurrents res (cid c)
              = Some (if dt > 0
                      then or_default (prevCurrent c) 0
                           + (V1 - V2) * (dt / or_default (inductance (properties c)) 1)
                      else (V1 - V2) / (1 / 10 ^ 6)))
     \<and> (ctype c = WIRE \<or> ctype c = AMMETER
            \<or> (ctype c = SWITCH \<and> \<not> truthy (isOpen (properties c))) \<longrightarrow>
            componentCurrents res (cid c) = Some ((V1 - V2) / (1 / 10 ^ 6)))
     \<and> (ctype c = VOLTMETER \<or> (ctype c = SWITCH \<and> truthy (isOpen (properties c))) \<longrightarrow>
            componentCurrents res (cid c) = Some ((V1 - V2) / 10 ^ 9))
     \<and> (ctype c = RESISTOR \<or> ctype c = LIGHTBULB \<longrightarrow>
            componentCurrents res (cid c)
              = Some ((V1 - V2) / or_default (resistance (properties c)) 10))"
proof -
  from assms(2) have "components \<noteq> []" by auto
  from solveCircuit_run [OF this, of dt] assms(3) obtain AZ x where
    run: "assemble t dt components = Some AZ"
         "gaussianElimination (fst AZ) (snd AZ) = Some x"
         "length x = mSize t components"
         "solveCircuit components dt = Some (extract_results t dt components x)"
    by auto
  define V1 where "V1 = potential_at (nodePotentials t x) (pointToNode t (pid (p1 c)))"
  define V2 where "V2 = potential_at (nodePotentials t x) (pointToNode t (pid (p2 c)))"
  note cur = extracted_current [OF assms(2,1) run(3) V1_def V2_def refl, of dt]
  note pot = extracted_potentials [OF assms(2), of t dt x, folded V1_def V2_def]
  show ?thesis
    apply (rule exI [of _ AZ], rule exI [of _ x])
    apply (rule exI [of _ "extract_results t dt components x"])
    apply (rule exI [of _ V1], rule exI [of _ V2])
    using run(1,2,4) pot cur by simp
qed

theorem component_current_by_type_witness:
  "\<exists>res. solveCircuit demo_circuit (1 / 20) = Some res
     \<and> (\<exists>AZ x k. assemble (resolve_topology demo_circuit) (1 / 20) demo_circuit = Some AZ
           \<and> gaussianElimination (fst AZ) (snd AZ) = Some x
           \<and> k < length (voltageSources demo_circuit)
           \<and> voltageSources demo_circuit ! k = createComp ''b'' BATTERY 100 300 100 100
           \<and> componentCurrents res ''b''
               = Some (x ! ((nodeCount (resolve_topology demo_circuit) - 1) + k)))
     \<and> (\<exists>V1 V2. pointPotentials res ''r-p1'' = Some V1 \<and> pointPotentials res ''r-p2'' = Some V2
           \<and> componentCurrents res ''r'' = Some ((V1 - V2) / 10))
     \<and> (\<exists>V1 V2. pointPotentials res ''c-p1'' = Some V1 \<and> pointPotentials res ''c-p2'' = Some V2
           \<and> componentCurrents res ''c'' = Some ((V1 - V2 - 3) / 50))
     \<and> (\<exists>V1 V2. pointPotentials res ''l-p1'' = Some V1 \<and> pointPotentials res ''l-p2'' = Some V2
           \<and> componentCurrents res ''l'' = Some (1 / 2 + (V1 - V2) / 20))
     \<and> (\<exists>V1 V2. pointPotentials res ''v-p1'' = Some V1 \<and> pointPotentials res ''v-p2'' = Some V2
           \<and> componentCurrents res ''v'' = Some ((V1 - V2) / 10 ^ 9))
     \<and> (\<exists>V1 V2. pointPotentials res ''w-p1'' = Some V1 \<and> pointPotentials res ''w-p2'' = Some V2
           \<and> componentCurrents res ''w'' = Some ((V1 - V2) * 10 ^ 6))"
proof -
  have d: "distinct (map cid demo_circuit)"
    by (simp add: demo_circuit_def createComp_def charged_capacitor_def
        energised_inductor_def)
  have "demo_circuit \<noteq> []" by (simp add: demo_circuit_def)
  from solveCircuit_run [OF this, of "1 / 20"] obtain res where
    res: "solveCircuit demo_circuit (1 / 20) = Some res" by blast
  have b: "\<exists>AZ x k. assemble (resolve_topology demo_circuit) (1 / 20) demo_circuit = Some AZ
           \<and> gaussianElimination (fst AZ) (snd AZ) = Some x
           \<and> k < length (voltageSources demo_circuit)
           \<and> voltageSources demo_circuit ! k = createComp ''b'' BATTERY 100 300 100 100
           \<and> componentCurrents res ''b''
               = Some (x ! ((nodeCount (resolve_topology demo_circuit) - 1) + k))"
  proof -
    have m: "createComp ''b'' BATTERY 100 300 100 100 \<in> set demo_circuit"
      by (simp add: demo_circuit_def)
    from component_current_by_type [OF d m refl, of "1 / 20"] res show ?thesis
      by (auto simp: createComp_def)
  qed
  have r: "\<exists>V1 V2. pointPotentials res ''r-p1'' = Some V1 \<and> pointPotentials res ''r-p2'' = Some V2
           \<and> componentCurrents res ''r'' = Some ((V1 - V2) / 10)"
  proof -
    have m: "createComp ''r'' RESISTOR 100 100 300 100 \<in> set demo_circuit"
      by (simp add: demo_circuit_def)
    from component_current_by_type [OF d m refl, of "1 / 20"] res show ?thesis
      by (auto simp: createComp_def or_default_nonzero)
  qed
  have c: "\<exists>V1 V2. pointPotentials res ''c-p1'' = Some V1 \<and> pointPotentials res ''c-p2'' = Some V2
           \<and> componentCurrents res ''c'' = Some ((V1 - V2 - 3) / 50)"
  proof -
    have m: "charged_capacitor \<in> set demo_circuit"
      by (simp add: demo_circuit_def)
    from component_current_by_type [OF d m refl, of "1 / 20"] res show ?thesis
      by (auto simp: charged_capacitor_def createComp_def or_default_nonzero)
  qed
  have l: "\<exists>V1 V2. pointPotentials res ''l-p1'' = Some V1 \<and> pointPotentials res ''l-p2'' = Some V2
           \<and> componentCurrents res ''l'' = Some (1 / 2 + (V1 - V2) / 20)"
  proof -
    have m: "energised_inductor \<in> set demo_circuit"
      by (simp add: demo_circuit_def)
    from component_current_by_type [OF d m refl, of "1 / 20"] res show ?thesis
      by (auto simp: energised_inductor_def createComp_def or_default_nonzero)
  qed
  have v: "\<exists>V1 V2. pointPotentials res ''v-p1'' = Some V1 \<and> pointPotentials res ''v-p2'' = Some V2
           \<and> componentCurrents res ''v'' = Some ((V1 - V2) / 10 ^ 9)"
  proof -
    have m: "createComp ''v'' VOLTMETER 300 100 300 300 \<in> set demo_circuit"
      by (simp add: demo_circuit_def)
    from component_current_by_type [OF d m refl, of "1 / 20"] res show ?thesis
      by (auto simp: createComp_def)
  qed
  have w: "\<exists>V1 V2. pointPotentials res ''w-p1'' = Some V1 \<and> pointPotentials res ''w-p2'' = Some V2
           \<and> componentCurrents res ''w'' = Some ((V1 - V2) * 10 ^ 6)"
  proof -
    have m: "createComp ''w'' WIRE 300 300 100 300 \<in> set demo_circuit"
      by (simp add: demo_circuit_def)
    from component_current_by_type [OF d m refl, of "1 / 20"] res show ?thesis
      by (auto simp: createComp_def)
  qed
  from res b r c l v w show ?thesis by blast
qed

section \<open>Claims about self-loops\<close>

lemma shorted_circuit_nodes:
  "nodeCount (resolve_topology shorted_circuit) = 2"
  "pointToNode (resolve_topology shorted_circuit) ''w-p1'' = Some 0"
  "pointToNode (resolve_topology shorted_circuit) ''w-p2'' = Some 1"
  "pointToNode (resolve_topology shorted_circuit) ''b-p1'' = Some 1"
  "pointToNode (resolve_topology shorted_circuit) ''b-p2'' = Some 1"
  by (simp_all add: resolve_topology_def points_of_def shorted_circuit_def shorted_battery_def
      createComp_def topology_init_def hypot_less_snap)

lemmas cell_defs = row_of_def mat_upd_def mat_get_def mat_set_def vec_upd_def vec_get_def
  vec_set_def

lemma shorted_circuit_system:
  "assemble (resolve_topology shorted_circuit) (1 / 20) shorted_circuit
     = Some ([[1000000, - 1], [- 1, 0]], [0, 9])"
proof -
  have "assemble t (1 / 20) shorted_circuit = Some ([[1000000, - 1], [- 1, 0]], [0, 9])"
    if "nodeCount t = 2" "pointToNode t ''w-p1'' = Some 0" "pointToNode t ''w-p2'' = Some 1"
      "pointToNode t ''b-p1'' = Some 1" "pointToNode t ''b-p2'' = Some 1" for t
    using that
    by (simp add: assemble_def mSize_def voltageSources_def Let_def
        shorted_circuit_def shorted_battery_def createComp_def stamp_component_def
        stamp_source_def element_model_def addConductance_def
        EPSILON_RESISTANCE_def enumerate_eq_zip cell_defs numeral_eq_Suc
        or_default_nonzero)
  then show ?thesis using shorted_circuit_nodes by blast
qed

lemma shorted_circuit_without_battery:
  "assemble (resolve_topology shorted_circuit) (1 / 20) [createComp ''w'' WIRE 50 0 100 0]
     = Some ([[1000000]], [0])"
proof -
  have "assemble t (1 / 20) [createComp ''w'' WIRE 50 0 100 0] = Some ([[1000000]], [0])"
    if "nodeCount t = 2" "pointToNode t ''w-p1'' = Some 0" "pointToNode t ''w-p2'' = Some 1"
    for t
    using that
    by (simp add: assemble_def mSize_def voltageSources_def Let_def
        createComp_def stamp_component_def
        stamp_source_def element_model_def addConductance_def
        EPSILON_RESISTANCE_def enumerate_eq_zip cell_defs numeral_eq_Suc
        or_default_nonzero)
  then show ?thesis using shorted_circuit_nodes by blast
qed

lemma for_loop_append:
  "for_loop (xs @ ys) body s
     = (case for_loop xs body s of None \<Rightarrow> None | Some s' \<Rightarrow> for_loop ys body s')"
  by (induction xs arbitrary: s) (auto split: option.splits)

lemma stamp_component_self_loop:
  assumes "ctype c \<noteq> BATTERY"
    and "pointToNode t (pid (p1 c)) = pointToNode t (pid (p2 c))"
  shows "stamp_component t dt c AZ = Some AZ"
  using assms by (simp add: stamp_component_def)

text \<open>
  C8, as amended.  A non-Battery element whose two terminals resolve to the same node is
  skipped by assembly: its step of the component loop returns the matrix and the
  right-hand side unchanged, it adds no unknown, and for the same node assignment the
  assembled system is that of the list without the element.  A Battery always adds one
  unknown, wherever its terminals resolve to.
\<close>

theorem self_loop_skipped:
  assumes "ctype c \<noteq> BATTERY"
    and "pointToNode t (pid (p1 c)) = pointToNode t (pid (p2 c))"
  shows "stamp_component t dt c AZ = Some AZ
       \<and> mSize t (before @ c # after) = mSize t (before @ after)
       \<and> assemble t dt (before @ c # after) = assemble t dt (before @ after)
       \<and> (\<forall>b. ctype b = BATTERY \<longrightarrow>
             mSize t (before @ b # after) = mSize t (before @ after) + 1)"
proof -
  have skip: "stamp_component t dt c S = Some S" for S
    using assms by (rule stamp_component_self_loop)
  have vs: "voltageSources (before @ c # after) = voltageSources (before @ after)"
    using assms(1) by (simp add: voltageSources_def)
  then have m: "mSize t (before @ c # after) = mSize t (before @ after)"
    by (simp add: mSize_def)
  have "for_loop (before @ c # after) (stamp_component t dt) S
          = for_loop (before @ after) (stamp_component t dt) S" for S
    by (simp add: for_loop_append skip split: option.splits)
  then have "assemble t dt (before @ c # after) = assemble t dt (before @ after)"
    unfolding assemble_def vs m by simp
  moreover have "\<forall>b. ctype b = BATTERY \<longrightarrow>
             mSize t (before @ b # after) = mSize t (before @ after) + 1"
    by (simp add: mSize_def voltageSources_def)
  ultimately show ?thesis using skip m by simp
qed

text \<open>
  C8, as stated, fails for a Battery: both terminals of \<open>shorted_battery\<close> resolve to node
  \<open>1\<close>, and yet the assembled system has a second unknown, the entries \<open>-1\<close> in the
  battery's row and column and \<open>9\<close> in its right-hand side, none of which the list
  without the battery has.
\<close>

theorem self_loop_battery_counterexample:
  "pointToNode (resolve_topology shorted_circuit) (pid (p1 shorted_battery))
     = pointToNode (resolve_topology shorted_circuit) (pid (p2 shorted_battery))
   \<and> assemble (resolve_topology shorted_circuit) (1 / 20)
        [createComp ''w'' WIRE 50 0 100 0, shorted_battery]
       = Some ([[1000000, - 1], [- 1, 0]], [0, 9])
   \<and> assemble (resolve_topology shorted_circuit) (1 / 20) [createComp ''w'' WIRE 50 0 100 0]
       = Some ([[1000000]], [0])
   \<and> assemble (resolve_topology shorted_circuit) (1 / 20)
        [createComp ''w'' WIRE 50 0 100 0, shorted_battery]
       \<noteq> assemble (resolve_topology shorted_circuit) (1 / 20)
           [createComp ''w'' WIRE 50 0 100 0]"
proof (intro conjI)
  show "pointToNode (resolve_topology shorted_circuit) (pid (p1 shorted_battery))
     = pointToNode (resolve_topology shorted_circuit) (pid (p2 shorted_battery))"
    by (simp add: shorted_battery_def createComp_def shorted_circuit_nodes)
  show "assemble (resolve_topology shorted_circuit) (1 / 20)
        [createComp ''w'' WIRE 50 0 100 0, shorted_battery]
       = Some ([[1000000, - 1], [- 1, 0]], [0, 9])"
    using shorted_circuit_system by (simp only: shorted_circuit_def)
  show "assemble (resolve_topology shorted_circuit) (1 / 20) [createComp ''w'' WIRE 50 0 100 0]
       = Some ([[1000000]], [0])"
    by (rule shorted_circuit_without_battery)
  show "assemble (resolve_topology shorted_circuit) (1 / 20)
        [createComp ''w'' WIRE 50 0 100 0, shorted_battery]
       \<noteq> assemble (resolve_topology shorted_circuit) (1 / 20)
           [createComp ''w'' WIRE 50 0 100 0]"
    using shorted_circuit_system shorted_circuit_without_battery
    by (simp add: shorted_circuit_def)
qed

lemma looped_wire_nodes:
  "pointToNode (resolve_topology [createComp ''w'' WIRE 50 0 100 0, looped_wire]) ''x-p1''
     = Some 1"
  "pointToNode (resolve_topology [createComp ''w'' WIRE 50 0 100 0, looped_wire]) ''x-p2''
     = Some 1"
  by (simp_all add: resolve_topology_def points_of_def looped_wire_def
      createComp_def topology_init_def hypot_less_snap)

theorem self_loop_skipped_witness:
  "stamp_component (resolve_topology [createComp ''w'' WIRE 50 0 100 0, looped_wire]) (1 / 20)
       looped_wire ([[5]], [7])
     = Some ([[5]], [7])
   \<and> assemble (resolve_topology [createComp ''w'' WIRE 50 0 100 0, looped_wire]) (1 / 20)
        [createComp ''w'' WIRE 50 0 100 0, looped_wire]
     = assemble (resolve_topology [createComp ''w'' WIRE 50 0 100 0, looped_wire]) (1 / 20)
        [createComp ''w'' WIRE 50 0 100 0]
   \<and> mSize (resolve_topology [createComp ''w'' WIRE 50 0 100 0, looped_wire])
        [createComp ''w'' WIRE 50 0 100 0, shorted_battery]
     = mSize (resolve_topology [createComp ''w'' WIRE 50 0 100 0, looped_wire])
        [createComp ''w'' WIRE 50 0 100 0] + 1"
proof -
  have ty: "ctype looped_wire \<noteq> BATTERY" "ctype shorted_battery = BATTERY"
    by (simp_all add: looped_wire_def shorted_battery_def createComp_def)
  have same: "pointToNode (resolve_topology [createComp ''w'' WIRE 50 0 100 0, looped_wire])
                 (pid (p1 looped_wire))
     = pointToNode (resolve_topology [createComp ''w'' WIRE 50 0 100 0, looped_wire])
                 (pid (p2 looped_wire))"
    using looped_wire_nodes by (simp add: looped_wire_def createComp_def)
  from self_loop_skipped [OF ty(1) same, of "1 / 20" "([[5]], [7])"
      "[createComp ''w'' WIRE 50 0 100 0]" "[]"] ty(2)
  show ?thesis by simp
qed

section \<open>Claims about defaults of falsy properties\<close>

lemma stamp_source_rhs:
  assumes "stamp_source t (i, c) AZ = Some AZ'"
  shows "(nodeCount t - 1) + i < length (snd AZ)
       \<and> snd AZ' = (snd AZ)[(nodeCount t - 1) + i := or_default (voltage (properties c)) 9]"
  using assms
  by (auto simp: stamp_source_def Let_def vec_set_def bind_eq_Some_conv split: if_splits)

lemma sources_loop_frame:
  assumes "for_loop (enumerate n vs) (stamp_source t) AZ = Some AZ'"
  shows "length (snd AZ') = length (snd AZ)
       \<and> (\<forall>j < (nodeCount t - 1) + n. snd AZ' ! j = snd AZ ! j)"
  using assms
proof (induction vs arbitrary: n AZ)
  case Nil
  then show ?case by simp
next
  case (Cons v vs)
  from Cons.prems obtain AZ1 where
    s1: "stamp_source t (n, v) AZ = Some AZ1"
    and s2: "for_loop (enumerate (Suc n) vs) (stamp_source t) AZ1 = Some AZ'"
    by (auto split: option.splits)
  from stamp_source_rhs [OF s1] have
    Z1: "snd AZ1 = (snd AZ)[(nodeCount t - 1) + n := or_default (voltage (properties v)) 9]"
    by simp
  from Cons.IH [OF s2] have
    "length (snd AZ') = length (snd AZ1)"
    "\<forall>j < (nodeCount t - 1) + Suc n. snd AZ' ! j = snd AZ1 ! j" by simp_all
  with Z1 show ?case by simp
qed

lemma sources_loop_rhs:
  assumes "for_loop (enumerate n vs) (stamp_source t) AZ = Some AZ'" and "k < length vs"
  shows "snd AZ' ! ((nodeCount t - 1) + n + k) = or_default (voltage (properties (vs ! k))) 9"
  using assms
proof (induction vs arbitrary: n AZ k)
  case Nil
  then show ?case by simp
next
  case (Cons v vs)
  from Cons.prems(1) obtain AZ1 where
    s1: "stamp_source t (n, v) AZ = Some AZ1"
    and s2: "for_loop (enumerate (Suc n) vs) (stamp_source t) AZ1 = Some AZ'"
    by (auto split: option.splits)
  show ?case
  proof (cases k)
    case 0
    from stamp_source_rhs [OF s1] have
      "snd AZ1 ! ((nodeCount t - 1) + n) = or_default (voltage (properties v)) 9"
      by simp
    moreover from sources_loop_frame [OF s2] have
      "snd AZ' ! ((nodeCount t - 1) + n) = snd AZ1 ! ((nodeCount t - 1) + n)" by simp
    ultimately show ?thesis using 0 by simp
  next
    case (Suc k')
    with Cons.prems(2) have "k' < length vs" by simp
    from Cons.IH [OF s2 this] Suc show ?thesis by simp
  qed
qed

lemma assemble_rhs:
  assumes "assemble t dt components = Some AZ" and "k < length (voltageSources components)"
  shows "snd AZ ! ((nodeCount t - 1) + k)
           = or_default (voltage (properties (voltageSources components ! k))) 9"
proof -
  from assms(1) obtain AZ1 where
    "for_loop (enumerate 0 (voltageSources components)) (stamp_source t) AZ1 = Some AZ"
    by (auto simp: assemble_def Let_def bind_eq_Some_conv)
  from sources_loop_rhs [OF this assms(2)] show ?thesis by simp
qed

text \<open>
  C9.  Defaults are taken on falsy values, not only on unset properties.  In a list with
  pairwise distinct element identifiers, a Resistor or Lightbulb whose resistance is
  explicitly \<open>0\<close> is stamped with the conductance \<open>1 / 10\<close> and its returned current is
  \<open>(V1 - V2) / 10\<close>; a Battery whose voltage is explicitly \<open>0\<close> has \<open>9\<close> as the
  right-hand side of its voltage-source row in the assembled system.
\<close>

theorem falsy_values_take_defaults:
  assumes "distinct (map cid components)" and "c \<in> set components"
    and "t = resolve_topology components"
    and "n1 = pointToNode t (pid (p1 c))" and "n2 = pointToNode t (pid (p2 c))"
  shows "\<exists>AZ res V1 V2.
       assemble t dt components = Some AZ \<and> solveCircuit components dt = Some res
     \<and> pointPotentials res (pid (p1 c)) = Some V1 \<and> pointPotentials res (pid (p2 c)) = Some V2
     \<and> ((ctype c = RESISTOR \<or> ctype c = LIGHTBULB) \<and> resistance (properties c) = Some 0 \<longrightarrow>
           element_model dt c = (1 / 10, 0)
         \<and> (\<forall>S. stamp_component t dt c S
                   = (if n1 = n2 then Some S
                      else do { A' \<leftarrow> addConductance n1 n2 (1 / 10) (fst S);
                                Some (A', snd S) }))
         \<and> componentCurrents res (cid c) = Some ((V1 - V2) / 10))
     \<and> (ctype c = BATTERY \<and> voltage (properties c) = Some 0 \<longrightarrow>
           (\<exists>k<length (voltageSources components). voltageSources components ! k = c
              \<and> snd AZ ! ((nodeCount t - 1) + k) = 9))"
proof -
  from assms(2) have "components \<noteq> []" by auto
  from solveCircuit_run [OF this, of dt] assms(3) obtain AZ x where
    run: "assemble t dt components = Some AZ"
         "length x = mSize t components"
         "solveCircuit components dt = Some (extract_results t dt components x)"
    by auto
  define V1 where "V1 = potential_at (nodePotentials t x) (pointToNode t (pid (p1 c)))"
  define V2 where "V2 = potential_at (nodePotentials t x) (pointToNode t (pid (p2 c)))"
  note cur = extracted_current [OF assms(2,1) run(2) V1_def V2_def refl, of dt]
  note pot = extracted_potentials [OF assms(2), of t dt x, folded V1_def V2_def]
  have res: "element_model dt c = (1 / 10, 0)
         \<and> (\<forall>S. stamp_component t dt c S
                   = (if n1 = n2 then Some S
                      else do { A' \<leftarrow> addConductance n1 n2 (1 / 10) (fst S);
                                Some (A', snd S) }))
         \<and> componentCurrents (extract_results t dt components x) (cid c)
             = Some ((V1 - V2) / 10)"
    if "(ctype c = RESISTOR \<or> ctype c = LIGHTBULB) \<and> resistance (properties c) = Some 0"
  proof -
    from that have em: "element_model dt c = (1 / 10, 0)"
      by (auto simp: element_model_def)
    from that have "ctype c \<noteq> BATTERY" by auto
    with em assms(4,5) have "stamp_component t dt c S
                   = (if n1 = n2 then Some S
                      else do { A' \<leftarrow> addConductance n1 n2 (1 / 10) (fst S);
                                Some (A', snd S) })" for S
      by (simp add: stamp_component_def Let_def)
    moreover from cur that
    have "componentCurrents (extract_results t dt components x) (cid c)
             = Some ((V1 - V2) / 10)" by auto
    ultimately show ?thesis using em by simp
  qed
  have bat: "\<exists>k<length (voltageSources components). voltageSources components ! k = c
              \<and> snd AZ ! ((nodeCount t - 1) + k) = 9"
    if "ctype c = BATTERY \<and> voltage (properties c) = Some 0"
  proof -
    from battery_index [OF assms(1,2)] that obtain k where
      k: "k < length (voltageSources components)" "voltageSources components ! k = c"
      by blast
    from assemble_rhs [OF run(1) k(1)] k(2) that
    have "snd AZ ! ((nodeCount t - 1) + k) = 9" by simp
    with k show ?thesis by blast
  qed
  show ?thesis
    apply (rule exI [of _ AZ])
    apply (rule exI [of _ "extract_results t dt components x"])
    apply (rule exI [of _ V1], rule exI [of _ V2])
    using run(1,3) pot res bat by simp
qed

lemma zero_loop_nodes:
  "nodeCount (resolve_topology zero_loop) = 2"
  "pointToNode (resolve_topology zero_loop) ''b-p1'' = Some 0"
  "pointToNode (resolve_topology zero_loop) ''b-p2'' = Some 1"
  "pointToNode (resolve_topology zero_loop) ''r-p1'' = Some 1"
  "pointToNode (resolve_topology zero_loop) ''r-p2'' = Some 0"
  by (simp_all add: resolve_topology_def points_of_def zero_loop_def zeroed_def
      createComp_def topology_init_def hypot_less_snap)

lemma zero_loop_system:
  "assemble (resolve_topology zero_loop) (1 / 20) zero_loop
     = Some ([[1 / 10, - 1], [- 1, 0]], [0, 9])"
proof -
  have "assemble t (1 / 20) zero_loop = Some ([[1 / 10, - 1], [- 1, 0]], [0, 9])"
    if "nodeCount t = 2" "pointToNode t ''b-p1'' = Some 0" "pointToNode t ''b-p2'' = Some 1"
      "pointToNode t ''r-p1'' = Some 1" "pointToNode t ''r-p2'' = Some 0" for t
    using that
    by (simp add: assemble_def mSize_def voltageSources_def Let_def
        zero_loop_def zeroed_def createComp_def stamp_component_def
        stamp_source_def element_model_def addConductance_def
        enumerate_eq_zip cell_defs numeral_eq_Suc)
  then show ?thesis using zero_loop_nodes by blast
qed

lemma zero_loop_solution:
  "gaussianElimination [[1 / 10, - 1], [- 1, 0]] [0, 9] = Some [- 9, - (9 / 10)]"
  by code_simp

text \<open>The whole solver on that loop: \<open>9\<close> volts across \<open>10\<close> ohms.\<close>

lemma zero_loop_result:
  "\<exists>res. solveCircuit zero_loop (1 / 20) = Some res
     \<and> pointPotentials res ''r-p1'' = Some (- 9) \<and> pointPotentials res ''r-p2'' = Some 0
     \<and> componentCurrents res ''b'' = Some (- (9 / 10))
     \<and> componentCurrents res ''r'' = Some (- (9 / 10))"
proof -
  have "solveCircuit zero_loop (1 / 20)
          = Some (extract_results (resolve_topology zero_loop) (1 / 20) zero_loop
                    [- 9, - (9 / 10)])"
    by (simp add: solveCircuit_def Let_def zero_loop_nodes zero_loop_system
        zero_loop_solution)
  moreover have "pointPotentials (extract_results t (1 / 20) zero_loop [- 9, - (9 / 10)]) ''r-p1''
                   = Some (- 9)
     \<and> pointPotentials (extract_results t (1 / 20) zero_loop [- 9, - (9 / 10)]) ''r-p2'' = Some 0
     \<and> componentCurrents (extract_results t (1 / 20) zero_loop [- 9, - (9 / 10)]) ''b''
         = Some (- (9 / 10))
     \<and> componentCurrents (extract_results t (1 / 20) zero_loop [- 9, - (9 / 10)]) ''r''
         = Some (- (9 / 10))"
    if "nodeCount t = 2" "pointToNode t ''b-p1'' = Some 0" "pointToNode t ''b-p2'' = Some 1"
      "pointToNode t ''r-p1'' = Some 1" "pointToNode t ''r-p2'' = Some 0" for t
    using that
    by (simp add: extract_results_def Let_def point_potentials_def component_currents_def
        component_current_def nodePotentials_def potential_at_def vec_or0_def
        voltageSources_def zero_loop_def zeroed_def createComp_def or_default_nonzero)
  ultimately show ?thesis using zero_loop_nodes by simp
qed

theorem falsy_values_take_defaults_witness:
  "\<exists>AZ res V1 V2.
       assemble (resolve_topology zero_loop) (1 / 20) zero_loop = Some AZ
     \<and> snd AZ ! 1 = 9
     \<and> solveCircuit zero_loop (1 / 20) = Some res
     \<and> pointPotentials res ''r-p1'' = Some V1 \<and> pointPotentials res ''r-p2'' = Some V2
     \<and> element_model (1 / 20) (zeroed (createComp ''r'' RESISTOR 100 100 100 300)) = (1 / 10, 0)
     \<and> componentCurrents res ''r'' = Some ((V1 - V2) / 10)"
proof -
  have d: "distinct (map cid zero_loop)"
    by (simp add: zero_loop_def zeroed_def createComp_def)
  have vs: "voltageSources zero_loop = [zeroed (createComp ''b'' BATTERY 100 300 100 100)]"
    by (simp add: voltageSources_def zero_loop_def zeroed_def createComp_def)
  have mb: "zeroed (createComp ''b'' BATTERY 100 300 100 100) \<in> set zero_loop"
    and mr: "zeroed (createComp ''r'' RESISTOR 100 100 100 300) \<in> set zero_loop"
    by (simp_all add: zero_loop_def)
  from falsy_values_take_defaults [OF d mb refl refl refl, of "1 / 20"]
  obtain AZ where AZ: "assemble (resolve_topology zero_loop) (1 / 20) zero_loop = Some AZ"
    "snd AZ ! 1 = 9"
    by (auto simp: vs zero_loop_nodes zeroed_def createComp_def)
  from falsy_values_take_defaults [OF d mr refl refl refl, of "1 / 20"]
  obtain res V1 V2 where "solveCircuit zero_loop (1 / 20) = Some res"
    "pointPotentials res ''r-p1'' = Some V1" "pointPotentials res ''r-p2'' = Some V2"
    "element_model (1 / 20) (zeroed (createComp ''r'' RESISTOR 100 100 100 300)) = (1 / 10, 0)"
    "componentCurrents res ''r'' = Some ((V1 - V2) / 10)"
    by (auto simp: zeroed_def createComp_def)
  with AZ show ?thesis by blast
qed

section \<open>Claims about topology resolution\<close>


















section \<open>Claims about the transient driver\<close>

lemma hasChanged_map:
  "hasChanged (map f comps) comps \<longleftrightarrow>
     (\<exists>i<length comps.
        \<bar>current (f (comps ! i)) - current (comps ! i)\<bar> > 1 / 10 ^ 4
        \<or> \<bar>voltageDrop (f (comps ! i)) - voltageDrop (comps ! i)\<bar> > 1 / 10 ^ 4)"
  by (auto simp: hasChanged_def list_ex_iff CHANGE_THRESHOLD_def)

lemma solveCircuit_Some: "\<exists>res. solveCircuit components dt = Some res"
proof (cases "components = []")
  case True
  then show ?thesis by (simp add: solveCircuit_empty)
next
  case False
  from solveCircuit_run [OF this, of dt] show ?thesis by blast
qed

lemma tick_unchanged:
  assumes "solveCircuit comps SIMULATION_DT = Some res"
    and "\<not> hasChanged (map (next_component res) comps) comps"
  shows "tick comps = Some (comps, False)"
  using assms by (simp add: tick_def)

lemma run_ticks_unchanged:
  assumes "tick comps = Some (comps, False)"
  shows "run_ticks n comps = Some (comps, replicate n False)"
  by (induction n) (simp_all add: assms)

text \<open>
  C6.  A run of the driver's loop solves the committed list and commits the updated list
  exactly when some element's new \<open>current\<close> or \<open>voltageDrop\<close> differs from its stored
  value by more than \<open>1e-4\<close> in absolute value; otherwise the committed list stays as it
  was and no change is signalled.  On a converged list a run signals no change and leaves
  the list as it was, and so does every later run: two consecutive runs never signal a
  changed commit.
\<close>

theorem update_suppression_gate:
  "(\<exists>res. solveCircuit comps SIMULATION_DT = Some res
      \<and> tick comps
          = (if \<exists>i<length comps.
                   \<bar>current (next_component res (comps ! i)) - current (comps ! i)\<bar> > 1 / 10 ^ 4
                   \<or> \<bar>voltageDrop (next_component res (comps ! i)) - voltageDrop (comps ! i)\<bar>
                        > 1 / 10 ^ 4
             then Some (map (next_component res) comps, True)
             else Some (comps, False)))
   \<and> (converged comps \<longrightarrow>
        tick comps = Some (comps, False)
        \<and> (\<forall>n. run_ticks n comps = Some (comps, replicate n False)))"
proof (intro conjI impI)
  from solveCircuit_Some obtain res where res: "solveCircuit comps SIMULATION_DT = Some res"
    by blast
  then have "tick comps
          = (if \<exists>i<length comps.
                   \<bar>current (next_component res (comps ! i)) - current (comps ! i)\<bar> > 1 / 10 ^ 4
                   \<or> \<bar>voltageDrop (next_component res (comps ! i)) - voltageDrop (comps ! i)\<bar>
                        > 1 / 10 ^ 4
             then Some (map (next_component res) comps, True)
             else Some (comps, False))"
    unfolding tick_def hasChanged_map [symmetric] by simp
  with res show "\<exists>res. solveCircuit comps SIMULATION_DT = Some res
      \<and> tick comps
          = (if \<exists>i<length comps.
                   \<bar>current (next_component res (comps ! i)) - current (comps ! i)\<bar> > 1 / 10 ^ 4
                   \<or> \<bar>voltageDrop (next_component res (comps ! i)) - voltageDrop (comps ! i)\<bar>
                        > 1 / 10 ^ 4
             then Some (map (next_component res) comps, True)
             else Some (comps, False))"
    by blast
next
  assume "converged comps"
  then obtain res where res: "solveCircuit comps SIMULATION_DT = Some res"
    and small: "\<forall>c \<in> set comps.
              \<bar>current (next_component res c) - current c\<bar> \<le> 1 / 10 ^ 4
              \<and> \<bar>voltageDrop (next_component res c) - voltageDrop c\<bar> \<le> 1 / 10 ^ 4"
    unfolding converged_def by blast
  from small have "\<not> hasChanged (map (next_component res) comps) comps"
    unfolding hasChanged_map by (auto simp: not_less)
  with res show t: "tick comps = Some (comps, False)" by (rule tick_unchanged)
  then show "\<forall>n. run_ticks n comps = Some (comps, replicate n False)"
    by (simp add: run_ticks_unchanged)
qed

lemma steady_loop_nodes:
  "nodeCount (resolve_topology steady_loop) = 2"
  "pointToNode (resolve_topology steady_loop) ''b-p1'' = Some 0"
  "pointToNode (resolve_topology steady_loop) ''b-p2'' = Some 1"
  "pointToNode (resolve_topology steady_loop) ''r-p1'' = Some 1"
  "pointToNode (resolve_topology steady_loop) ''r-p2'' = Some 0"
  by (simp_all add: resolve_topology_def points_of_def steady_loop_def
      createComp_def topology_init_def hypot_less_snap)

lemma steady_loop_system:
  "assemble (resolve_topology steady_loop) SIMULATION_DT steady_loop
     = Some ([[1 / 10, - 1], [- 1, 0]], [0, 9])"
proof -
  have "assemble t SIMULATION_DT steady_loop = Some ([[1 / 10, - 1], [- 1, 0]], [0, 9])"
    if "nodeCount t = 2" "pointToNode t ''b-p1'' = Some 0" "pointToNode t ''b-p2'' = Some 1"
      "pointToNode t ''r-p1'' = Some 1" "pointToNode t ''r-p2'' = Some 0" for t
    using that
    by (simp add: assemble_def mSize_def voltageSources_def Let_def
        steady_loop_def createComp_def stamp_component_def
        stamp_source_def element_model_def addConductance_def
        enumerate_eq_zip cell_defs numeral_eq_Suc or_default_nonzero)
  then show ?thesis using steady_loop_nodes by blast
qed

lemma steady_loop_result:
  "\<exists>res. solveCircuit steady_loop SIMULATION_DT = Some res
     \<and> pointPotentials res ''b-p1'' = Some 0 \<and> pointPotentials res ''b-p2'' = Some (- 9)
     \<and> pointPotentials res ''r-p1'' = Some (- 9) \<and> pointPotentials res ''r-p2'' = Some 0
     \<and> componentCurrents res ''b'' = Some (- (9 / 10))
     \<and> componentCurrents res ''r'' = Some (- (9 / 10))"
proof -
  have "solveCircuit steady_loop SIMULATION_DT
          = Some (extract_results (resolve_topology steady_loop) SIMULATION_DT steady_loop
                    [- 9, - (9 / 10)])"
    by (simp add: solveCircuit_def Let_def steady_loop_nodes steady_loop_system
        zero_loop_solution)
  moreover have "pointPotentials (extract_results t dt steady_loop [- 9, - (9 / 10)]) ''b-p1''
                   = Some 0
     \<and> pointPotentials (extract_results t dt steady_loop [- 9, - (9 / 10)]) ''b-p2''
         = Some (- 9)
     \<and> pointPotentials (extract_results t dt steady_loop [- 9, - (9 / 10)]) ''r-p1''
         = Some (- 9)
     \<and> pointPotentials (extract_results t dt steady_loop [- 9, - (9 / 10)]) ''r-p2'' = Some 0
     \<and> componentCurrents (extract_results t dt steady_loop [- 9, - (9 / 10)]) ''b''
         = Some (- (9 / 10))
     \<and> componentCurrents (extract_results t dt steady_loop [- 9, - (9 / 10)]) ''r''
         = Some (- (9 / 10))"
    if "nodeCount t = 2" "pointToNode t ''b-p1'' = Some 0" "pointToNode t ''b-p2'' = Some 1"
      "pointToNode t ''r-p1'' = Some 1" "pointToNode t ''r-p2'' = Some 0" for t dt
    using that
    by (simp add: extract_results_def Let_def point_potentials_def component_currents_def
        component_current_def nodePotentials_def potential_at_def vec_or0_def
        voltageSources_def steady_loop_def createComp_def or_default_nonzero)
  ultimately show ?thesis using steady_loop_nodes by simp
qed

lemma steady_loop_converged: "converged steady_loop"
proof -
  from steady_loop_result obtain res where
    res: "solveCircuit steady_loop SIMULATION_DT = Some res"
      "pointPotentials res ''b-p1'' = Some 0" "pointPotentials res ''b-p2'' = Some (- 9)"
      "pointPotentials res ''r-p1'' = Some (- 9)" "pointPotentials res ''r-p2'' = Some 0"
      "componentCurrents res ''b'' = Some (- (9 / 10))"
      "componentCurrents res ''r'' = Some (- (9 / 10))" by blast
  have "\<forall>c \<in> set steady_loop.
              \<bar>current (next_component res c) - current c\<bar> \<le> 1 / 10 ^ 4
              \<and> \<bar>voltageDrop (next_component res c) - voltageDrop c\<bar> \<le> 1 / 10 ^ 4"
    using res(2-)
    by (simp add: steady_loop_def createComp_def next_component_def Let_def
        or_default_nonzero)
  with res(1) show ?thesis unfolding converged_def by blast
qed

theorem update_suppression_gate_witness:
  "converged steady_loop
   \<and> tick steady_loop = Some (steady_loop, False)
   \<and> run_ticks 2 steady_loop = Some (steady_loop, [False, False])"
proof -
  from update_suppression_gate [of steady_loop] steady_loop_converged
  have "tick steady_loop = Some (steady_loop, False)"
    and "run_ticks 2 steady_loop = Some (steady_loop, replicate 2 False)"
    by blast+
  with steady_loop_converged show ?thesis by (simp add: numeral_2_eq_2)
qed

section \<open>Direct-current circuits settle after one run\<close>

text \<open>
  The solver reads the history fields of capacitors and inductors only, and none of the
  fields the driver writes.  So on a resistive list the run after a commit computes the
  values just committed and signals no change.
\<close>

lemma for_loop_map:
  "for_loop (map f xs) body s = for_loop xs (\<lambda>x. body (f x)) s"
  by (induction xs arbitrary: s) (auto split: option.splits)

lemma for_loop_cong:
  assumes "\<And>x s. x \<in> set xs \<Longrightarrow> body x s = body' x s"
  shows "for_loop xs body s = for_loop xs body' s"
  using assms by (induction xs arbitrary: s) (auto split: option.splits)

lemma findIndex_map: "findIndex P (map f xs) = findIndex (\<lambda>x. P (f x)) xs"
  by (induction xs) auto

lemma keeps_points: "keeps_circuit f \<Longrightarrow> points_of (map f comps) = points_of comps"
  by (induction comps) (auto simp: points_of_def keeps_circuit_def)

lemma keeps_topology:
  "keeps_circuit f \<Longrightarrow> resolve_topology (map f comps) = resolve_topology comps"
  by (simp add: resolve_topology_def keeps_points)

lemma keeps_sources:
  "keeps_circuit f \<Longrightarrow> voltageSources (map f comps) = map f (voltageSources comps)"
  by (simp add: voltageSources_def filter_map comp_def keeps_circuit_def)

lemma keeps_element_model:
  assumes "keeps_circuit f" "ctype c \<noteq> CAPACITOR" "ctype c \<noteq> INDUCTOR"
  shows "element_model dt (f c) = element_model dt c"
  using assms by (simp add: element_model_def keeps_circuit_def)

lemma keeps_stamp_component:
  assumes "keeps_circuit f" "ctype c \<noteq> CAPACITOR" "ctype c \<noteq> INDUCTOR"
  shows "stamp_component t dt (f c) AZ = stamp_component t dt c AZ"
  using assms keeps_element_model [OF assms, of dt]
  by (simp add: stamp_component_def keeps_circuit_def Let_def)

lemma keeps_stamp_source:
  assumes "keeps_circuit f"
  shows "stamp_source t (i, f c) AZ = stamp_source t (i, c) AZ"
  using assms by (simp add: stamp_source_def keeps_circuit_def)

lemma enumerate_map:
  "enumerate n (map f xs) = map (\<lambda>ic. (fst ic, f (snd ic))) (enumerate n xs)"
  by (induction xs arbitrary: n) auto

lemma keeps_assemble:
  assumes k: "keeps_circuit f" and r: "resistive comps"
  shows "assemble t dt (map f comps) = assemble t dt comps"
proof -
  have m: "mSize t (map f comps) = mSize t comps"
    by (simp add: mSize_def keeps_sources [OF k])
  have c: "for_loop (map f comps) (stamp_component t dt) S
             = for_loop comps (stamp_component t dt) S" for S
    unfolding for_loop_map
    by (rule for_loop_cong) (use r in \<open>auto simp: resistive_def keeps_stamp_component [OF k]\<close>)
  have v: "for_loop (enumerate 0 (voltageSources (map f comps))) (stamp_source t) S
             = for_loop (enumerate 0 (voltageSources comps)) (stamp_source t) S" for S
    unfolding keeps_sources [OF k] enumerate_map for_loop_map
  proof (rule for_loop_cong)
    fix ic S
    show "stamp_source t (fst ic, f (snd ic)) S = stamp_source t ic S"
      using keeps_stamp_source [OF k, of t "fst ic" "snd ic" S] by simp
  qed
  show ?thesis unfolding assemble_def m Let_def c v ..
qed

lemma keeps_component_current:
  assumes k: "keeps_circuit f" and c: "ctype c \<noteq> CAPACITOR" "ctype c \<noteq> INDUCTOR"
  shows "component_current t dt (map f sources) x np (f c)
           = component_current t dt sources x np c"
proof -
  have kf: "cid (f c) = cid c" "ctype (f c) = ctype c" "p1 (f c) = p1 c" "p2 (f c) = p2 c"
    "properties (f c) = properties c" for c
    using k by (simp_all add: keeps_circuit_def)
  have "findIndex (\<lambda>v. cid v = cid (f c)) (map f sources)
          = findIndex (\<lambda>v. cid v = cid c) sources"
    by (simp add: findIndex_map kf)
  then show ?thesis using c by (simp add: component_current_def kf Let_def)
qed

lemma fold_map_list: "fold g (map f xs) m = fold (\<lambda>x. g (f x)) xs m"
  by (induction xs arbitrary: m) auto

lemma keeps_extract_results:
  assumes k: "keeps_circuit f" and r: "resistive comps"
  shows "extract_results t dt (map f comps) x = extract_results t dt comps x"
proof -
  have pp: "point_potentials t np (map f comps) = point_potentials t np comps" for np
    using k by (simp add: point_potentials_def fold_map_list keeps_circuit_def)
  have cc: "component_currents t dt (map f comps) x np
                     = component_currents t dt comps x np" for np
    unfolding component_currents_def fold_map_list keeps_sources [OF k]
  proof (rule fold_cong [OF refl refl])
    fix c assume "c \<in> set comps"
    with r have c: "ctype c \<noteq> CAPACITOR" "ctype c \<noteq> INDUCTOR"
      by (simp_all add: resistive_def)
    have "cid (f c) = cid c" using k by (simp add: keeps_circuit_def)
    then show "(\<lambda>m. case component_current t dt (map f (voltageSources comps)) x np (f c) of
                       None \<Rightarrow> m | Some i \<Rightarrow> m(cid (f c) \<mapsto> i))
          = (\<lambda>m. case component_current t dt (voltageSources comps) x np c of
                       None \<Rightarrow> m | Some i \<Rightarrow> m(cid c \<mapsto> i))"
      by (simp add: keeps_component_current [OF k c] cong: option.case_cong)
  qed
  show ?thesis by (simp add: extract_results_def pp cc)
qed

lemma keeps_solveCircuit:
  assumes k: "keeps_circuit f" and r: "resistive comps"
  shows "solveCircuit (map f comps) dt = solveCircuit comps dt"
  by (simp add: solveCircuit_def Let_def keeps_topology [OF k] keeps_assemble [OF k r]
      keeps_extract_results [OF k r])

lemma next_component_keeps: "keeps_circuit (next_component res)"
  by (simp add: keeps_circuit_def next_component_def Let_def)

lemma next_component_idem:
  "next_component res (next_component res c) = next_component res c"
  by (simp add: next_component_def Let_def)

lemma resistive_tick_settles:
  assumes "resistive comps" and "tick comps = Some (comps', changed)"
  shows "tick comps' = Some (comps', False)"
proof (cases changed)
  case False
  with assms(2) have "comps' = comps"
    by (auto simp: tick_def bind_eq_Some_conv Let_def split: if_splits)
  with assms(2) False show ?thesis by simp
next
  case True
  with assms(2) obtain res where
    res: "solveCircuit comps SIMULATION_DT = Some res"
    and c': "comps' = map (next_component res) comps"
    by (auto simp: tick_def bind_eq_Some_conv Let_def split: if_splits)
  have "solveCircuit comps' SIMULATION_DT = Some res"
    unfolding c' using keeps_solveCircuit [OF next_component_keeps assms(1)] res by simp
  moreover have "\<not> hasChanged (map (next_component res) comps') comps'"
    unfolding hasChanged_map by (simp add: c' next_component_idem)
  ultimately show ?thesis by (rule tick_unchanged)
qed

section \<open>Claims about the input objects\<close>

lemma those_map_all2:
  "those (map f xs) = Some ys \<longleftrightarrow> list_all2 (\<lambda>x y. f x = Some y) xs ys"
proof (induction xs arbitrary: ys)
  case Nil
  then show ?case by auto
next
  case (Cons x xs)
  show ?case
  proof (cases "f x")
    case None
    then show ?thesis by (auto simp: list_all2_Cons1)
  next
    case (Some y)
    then show ?thesis using Cons.IH by (auto simp: list_all2_Cons1)
  qed
qed

lemma store_ok_bound: "store_ok s \<Longrightarrow> cells s a = Some v \<Longrightarrow> a < next_addr s"
  by (auto simp: store_ok_def)

lemma extends_refl: "extends s s"
  by (simp add: extends_def)

lemma extends_step:
  assumes "extends s0 s" "local_step points s s'" "next_addr s0 \<le> points"
  shows "extends s0 s'"
  using assms unfolding extends_def local_step_def by auto

lemma local_step_trans:
  assumes "local_step points s s1" "local_step points s1 s2"
  shows "local_step points s s2"
  using assms unfolding local_step_def by auto

lemma alloc_facts:
  assumes "store_ok s"
  shows "store_ok (snd (alloc v s))" and "local_step points s (snd (alloc v s))"
    and "cells (snd (alloc v s)) (fst (alloc v s)) = Some v"
    and "fst (alloc v s) = next_addr s" and "next_addr (snd (alloc v s)) = Suc (next_addr s)"
    and "a \<noteq> next_addr s \<Longrightarrow> cells (snd (alloc v s)) a = cells s a"
  using assms by (auto simp: alloc_def store_ok_def local_step_def less_Suc_eq)

lemma push_facts:
  assumes "store_ok s" "cells s points = Some (RefArray xs)"
  shows "\<exists>s'. push points a s = Some s' \<and> store_ok s' \<and> local_step points s s'
           \<and> cells s' points = Some (RefArray (xs @ [a]))
           \<and> (\<forall>b. b \<noteq> points \<longrightarrow> cells s' b = cells s b)
           \<and> next_addr s' = next_addr s"
  using assms by (auto simp: push_def store_ok_def local_step_def)

lemma read_point_same:
  "cells s' a = cells s a \<Longrightarrow> read_point s' a = read_point s a"
  by (simp add: read_point_def)

lemma read_point_extends:
  assumes "store_ok s0" "extends s0 s" "read_point s0 a = Some p"
  shows "read_point s a = Some p"
proof -
  from assms(3) obtain v where "cells s0 a = Some v"
    by (auto simp: read_point_def split: option.splits)
  with assms(1) have "a < next_addr s0" by (rule store_ok_bound)
  with assms(2) have "cells s a = cells s0 a" by (simp add: extends_def)
  with assms(3) show ?thesis by (simp add: read_point_def)
qed

lemma read_properties_extends:
  assumes "store_ok s0" "extends s0 s" "read_properties s0 a = Some p"
  shows "read_properties s a = Some p"
proof -
  from assms(3) obtain v where "cells s0 a = Some v"
    by (auto simp: read_properties_def split: option.splits)
  with assms(1) have "a < next_addr s0" by (rule store_ok_bound)
  with assms(2) have "cells s a = cells s0 a" by (simp add: extends_def)
  with assms(3) show ?thesis by (simp add: read_properties_def)
qed

lemma read_element_cell:
  assumes "read_element s a = Some c"
  shows "\<exists>e. cells s a = Some (ElementCell e) \<and> e_id e = cid c \<and> e_type e = ctype c
           \<and> read_point s (e_p1 e) = Some (p1 c) \<and> read_point s (e_p2 e) = Some (p2 c)
           \<and> read_properties s (e_properties e) = Some (properties c)"
  using assms
  by (auto simp: read_element_def bind_eq_Some_conv split: option.splits obj.splits)

lemma read_element_extends:
  assumes "store_ok s0" "extends s0 s" "read_element s0 a = Some c"
  shows "read_element s a = Some c"
proof -
  from read_element_cell [OF assms(3)] obtain e where
    e: "cells s0 a = Some (ElementCell e)"
       "read_point s0 (e_p1 e) = Some (p1 c)" "read_point s0 (e_p2 e) = Some (p2 c)"
       "read_properties s0 (e_properties e) = Some (properties c)" by blast
  from e(1) assms(1) have "a < next_addr s0" by (rule store_ok_bound [rotated])
  with assms(2) have "cells s a = Some (ElementCell e)" using e(1) by (simp add: extends_def)
  moreover note read_point_extends [OF assms(1,2) e(2)] read_point_extends [OF assms(1,2) e(3)]
    read_properties_extends [OF assms(1,2) e(4)]
  ultimately show ?thesis using assms(3) e by (simp add: read_element_def)
qed

lemma push_terminals_step:
  assumes ok0: "store_ok s0" and ext: "extends s0 s" and ok: "store_ok s"
    and pts: "next_addr s0 \<le> points" and arr: "cells s points = Some (RefArray as)"
    and c: "read_element s0 c = Some cmp"
  shows "\<exists>s' a1 a2. push_terminals points c s = Some s' \<and> store_ok s'
           \<and> local_step points s s'
           \<and> cells s' points = Some (RefArray (as @ [a1, a2]))
           \<and> read_point s' a1 = Some (p1 cmp) \<and> read_point s' a2 = Some (p2 cmp)"
proof -
  from read_element_cell [OF c] obtain e where
    e: "cells s0 c = Some (ElementCell e)"
       "read_point s0 (e_p1 e) = Some (p1 cmp)" "read_point s0 (e_p2 e) = Some (p2 cmp)"
    by blast
  from e(1) ok0 have "c < next_addr s0" by (rule store_ok_bound [rotated])
  with ext e(1) have ce: "cells s c = Some (ElementCell e)" by (simp add: extends_def)
  from arr ok have pb: "points < next_addr s" by (rule store_ok_bound [rotated])
  have r1: "read_point s (e_p1 e) = Some (p1 cmp)"
    by (rule read_point_extends [OF ok0 ext e(2)])
  define v1 where "v1 = PointCell (p1 cmp) (Some (e_id e))"
  define sa where "sa = snd (alloc v1 s)"
  define a1 where "a1 = fst (alloc v1 s)"
  have a1: "a1 = next_addr s" by (simp add: a1_def alloc_facts(4) [OF ok])
  have sa: "store_ok sa" "local_step points s sa" "cells sa a1 = Some v1"
    "next_addr sa = Suc (next_addr s)"
    unfolding sa_def a1_def by (rule alloc_facts [OF ok])+
  have "cells sa points = Some (RefArray as)"
    using alloc_facts(6) [OF ok, of points v1] pb arr by (simp add: sa_def)
  from push_facts [OF sa(1) this, of a1] obtain s1 where
    s1: "push points a1 sa = Some s1" "store_ok s1" "local_step points sa s1"
        "cells s1 points = Some (RefArray (as @ [a1]))"
        "\<forall>b. b \<noteq> points \<longrightarrow> cells s1 b = cells sa b" "next_addr s1 = next_addr sa"
    by blast
  have st1: "local_step points s s1" by (rule local_step_trans [OF sa(2) s1(3)])
  have ext1: "extends s0 s1" by (rule extends_step [OF ext st1 pts])
  have r2: "read_point s1 (e_p2 e) = Some (p2 cmp)"
    by (rule read_point_extends [OF ok0 ext1 e(3)])
  define v2 where "v2 = PointCell (p2 cmp) (Some (e_id e))"
  define sb where "sb = snd (alloc v2 s1)"
  define a2 where "a2 = fst (alloc v2 s1)"
  have a2: "a2 = Suc (next_addr s)" using sa(4) s1(6) by (simp add: a2_def alloc_facts(4) [OF s1(2)])
  have sb: "store_ok sb" "local_step points s1 sb" "cells sb a2 = Some v2"
    unfolding sb_def a2_def by (rule alloc_facts [OF s1(2)])+
  have sb_other: "cells sb b = cells s1 b" if "b \<noteq> a2" for b
    using alloc_facts(6) [OF s1(2), of b v2] that a2 sa(4) s1(6) by (simp add: sb_def)
  from pb a2 have pa2: "points \<noteq> a2" by simp
  from pb a1 have pa1: "points \<noteq> a1" by simp
  have "cells sb points = Some (RefArray (as @ [a1]))"
    using sb_other [of points] pa2 s1(4) by simp
  from push_facts [OF sb(1) this, of a2] obtain s2 where
    s2: "push points a2 sb = Some s2" "store_ok s2" "local_step points sb s2"
        "cells s2 points = Some (RefArray ((as @ [a1]) @ [a2]))"
        "\<forall>b. b \<noteq> points \<longrightarrow> cells s2 b = cells sb b"
    by blast
  have st2: "local_step points s s2"
    by (rule local_step_trans [OF st1 local_step_trans [OF sb(2) s2(3)]])
  have c1: "cells s2 a1 = Some v1"
    using s2(5) pa1 sb_other [of a1] a1 a2 s1(5) sa(3) by simp
  have c2: "cells s2 a2 = Some v2"
    using s2(5) pa2 sb(3) by simp
  have run: "push_terminals points c s = Some s2"
    using ce r1 s1(1) r2 s2(1)
    by (simp add: push_terminals_def v1_def [symmetric] sa_def [symmetric]
        a1_def [symmetric] v2_def [symmetric] sb_def [symmetric] a2_def [symmetric])
  have "read_point s2 a1 = Some (p1 cmp)" "read_point s2 a2 = Some (p2 cmp)"
    using c1 c2 by (simp_all add: read_point_def v1_def v2_def)
  with run s2(2,4) st2 show ?thesis by auto
qed

lemma read_point_local_step:
  assumes "store_ok s" "local_step points s s'" "cells s points = Some (RefArray as)"
    and "read_point s a = Some p"
  shows "read_point s' a = Some p"
proof -
  from assms(4) obtain v where v: "cells s a = Some v"
    by (auto simp: read_point_def split: option.splits)
  with assms(1) have "a < next_addr s" by (rule store_ok_bound)
  moreover from assms(3,4) have "a \<noteq> points" by (auto simp: read_point_def)
  ultimately have "cells s' a = cells s a" using assms(2) by (simp add: local_step_def)
  with assms(4) show ?thesis by (simp add: read_point_def)
qed

lemma push_all_terminals:
  assumes ok0: "store_ok s0" and pts: "next_addr s0 \<le> points"
    and elems: "list_all2 (\<lambda>a c. read_element s0 a = Some c) elems comps"
    and ext: "extends s0 s" and ok: "store_ok s"
    and arr: "cells s points = Some (RefArray as)"
    and rd: "list_all2 (\<lambda>a p. read_point s a = Some p) as ps"
  shows "\<exists>s' as'. for_loop elems (push_terminals points) s = Some s' \<and> store_ok s'
           \<and> extends s0 s' \<and> cells s' points = Some (RefArray as')
           \<and> list_all2 (\<lambda>a p. read_point s' a = Some p) as' (ps @ points_of comps)"
  using elems ext ok arr rd
proof (induction elems comps arbitrary: s as ps rule: list_all2_induct)
  case Nil
  then show ?case by (auto simp: points_of_def)
next
  case (Cons c elems cmp comps)
  from push_terminals_step [OF ok0 Cons.prems(1,2) pts Cons.prems(3) Cons.hyps(1)]
  obtain s1 a1 a2 where
    s1: "push_terminals points c s = Some s1" "store_ok s1" "local_step points s s1"
        "cells s1 points = Some (RefArray (as @ [a1, a2]))"
        "read_point s1 a1 = Some (p1 cmp)" "read_point s1 a2 = Some (p2 cmp)"
    by blast
  have ext1: "extends s0 s1" by (rule extends_step [OF Cons.prems(1) s1(3) pts])
  have old: "list_all2 (\<lambda>a p. read_point s1 a = Some p) as ps"
    using Cons.prems(4)
    by (rule list_all2_mono)
       (rule read_point_local_step [OF Cons.prems(2) s1(3) Cons.prems(3)])
  with s1(5,6) have rd1: "list_all2 (\<lambda>a p. read_point s1 a = Some p)
                            (as @ [a1, a2]) (ps @ [p1 cmp, p2 cmp])"
    by (simp add: list_all2_appendI)
  from Cons.IH [OF ext1 s1(2) s1(4) rd1] obtain s' as' where
    "for_loop elems (push_terminals points) s1 = Some s'" "store_ok s'" "extends s0 s'"
    "cells s' points = Some (RefArray as')"
    "list_all2 (\<lambda>a p. read_point s' a = Some p) as' ((ps @ [p1 cmp, p2 cmp]) @ points_of comps)"
    by blast
  with s1(1) show ?case by (auto simp: points_of_def)
qed

text \<open>
  C10.  \<open>solveCircuit\<close> does not mutate its input.  On a store in which the argument is
  an array of elements with their points and property bags, the call returns the result of
  the solver on those elements; afterwards every object that existed before the call is
  unchanged (the array, every element, every point, every property bag, with all their
  fields) and the argument still reads as the same element list.  The solver's writes go
  to objects it allocated itself.
\<close>

theorem solveCircuit_leaves_input:
  assumes ok: "store_ok s" and input: "read_components s components = Some comps"
  shows "\<exists>res s'. solveCircuit comps dt = Some res
           \<and> solveCircuit_store components dt s = Some (res, s')
           \<and> (\<forall>a \<in> dom (cells s). cells s' a = cells s a)
           \<and> read_components s' components = Some comps"
proof -
  from input obtain elems where
    elems: "read_array s components = Some elems"
    and all: "list_all2 (\<lambda>a c. read_element s a = Some c) elems comps"
    by (auto simp: read_components_def bind_eq_Some_conv those_map_all2)
  define points where "points = fst (alloc (RefArray []) s)"
  define sA where "sA = snd (alloc (RefArray []) s)"
  have pts: "next_addr s \<le> points" by (simp add: points_def alloc_facts(4) [OF ok])
  have sA: "store_ok sA" "local_step points s sA" "cells sA points = Some (RefArray [])"
    unfolding sA_def points_def by (rule alloc_facts [OF ok])+
  have extA: "extends s sA" by (rule extends_step [OF extends_refl sA(2) pts])
  from push_all_terminals [OF ok pts all extA sA(1) sA(3), of "[]"] obtain s1 copies where
    s1: "for_loop elems (push_terminals points) sA = Some s1" "store_ok s1" "extends s s1"
        "cells s1 points = Some (RefArray copies)"
        "list_all2 (\<lambda>a p. read_point s1 a = Some p) copies (points_of comps)"
    by auto
  from s1(4) have copies: "read_array s1 points = Some copies" by (simp add: read_array_def)
  from s1(5) have terminals: "those (map (read_point s1) copies) = Some (points_of comps)"
    by (simp add: those_map_all2)
  have t: "identify_nodes (points_of comps) topology_init = resolve_topology comps"
    by (simp add: resolve_topology_def)
  have frame: "\<forall>a \<in> dom (cells s). cells s' a = cells s a" if "extends s s'" for s'
    using that ok by (auto simp: extends_def dest: store_ok_bound)
  have reread: "read_components s' components = Some comps" if e: "extends s s'" for s'
  proof -
    from elems obtain v where "cells s components = Some v"
      by (auto simp: read_array_def split: option.splits)
    with ok have "components < next_addr s" by (rule store_ok_bound)
    with e have "cells s' components = cells s components" by (simp add: extends_def)
    with elems have "read_array s' components = Some elems" by (simp add: read_array_def)
    moreover have "list_all2 (\<lambda>a c. read_element s' a = Some c) elems comps"
      using all by (rule list_all2_mono) (rule read_element_extends [OF ok e])
    ultimately show ?thesis by (simp add: read_components_def those_map_all2)
  qed
  from solveCircuit_Some obtain res where res: "solveCircuit comps dt = Some res" by blast
  show ?thesis
  proof (cases "nodeCount (resolve_topology comps) = 0")
    case True
    with res have "res = \<lparr>pointPotentials = Map.empty, componentCurrents = Map.empty\<rparr>"
      by (simp add: solveCircuit_def Let_def)
    with True elems s1(1) copies terminals
    have "solveCircuit_store components dt s = Some (res, s1)"
      by (simp add: solveCircuit_store_def Let_def points_def [symmetric] sA_def [symmetric] t)
    with res frame [OF s1(3)] reread [OF s1(3)] show ?thesis by blast
  next
    case False
    define s2 where "s2 = snd (alloc (RefArray (filter (is_battery s1) elems)) s1)"
    have "local_step points s1 s2" unfolding s2_def by (rule alloc_facts(2) [OF s1(2)])
    then have ext2: "extends s s2" by (rule extends_step [OF s1(3) _ pts])
    have "list_all2 (\<lambda>a c. read_element s2 a = Some c) elems comps"
      using all by (rule list_all2_mono) (rule read_element_extends [OF ok ext2])
    then have comps2: "those (map (read_element s2) elems) = Some comps"
      by (simp add: those_map_all2)
    from res False obtain AZ x where
      "assemble (resolve_topology comps) dt comps = Some AZ"
      "gaussianElimination (fst AZ) (snd AZ) = Some x"
      "res = extract_results (resolve_topology comps) dt comps x"
      by (auto simp: solveCircuit_def Let_def bind_eq_Some_conv)
    with False elems s1(1) copies terminals comps2
    have "solveCircuit_store components dt s = Some (res, s2)"
      by (simp add: solveCircuit_store_def Let_def points_def [symmetric] sA_def [symmetric] t
          s2_def [symmetric])
    with res frame [OF ext2] reread [OF ext2] show ?thesis by blast
  qed
qed

lemma example_store_input:
  "store_ok example_store"
  "read_components example_store 4 = Some [createComp ''w'' WIRE 50 0 100 0]"
  by (auto simp: store_ok_def example_store_def read_components_def read_array_def
      read_element_def read_point_def read_properties_def createComp_def)

theorem solveCircuit_leaves_input_witness:
  "store_ok example_store
   \<and> read_components example_store 4 = Some [createComp ''w'' WIRE 50 0 100 0]
   \<and> (\<exists>res s'. solveCircuit [createComp ''w'' WIRE 50 0 100 0] (1 / 20) = Some res
         \<and> solveCircuit_store 4 (1 / 20) example_store = Some (res, s')
         \<and> (\<forall>a \<in> {0, 1, 2, 3, 4}. cells s' a = cells example_store a)
         \<and> read_components s' 4 = Some [createComp ''w'' WIRE 50 0 100 0])"
proof -
  have "dom (cells example_store) = {0, 1, 2, 3, 4}"
    by (auto simp: example_store_def)
  with solveCircuit_leaves_input [OF example_store_input, of "1 / 20"] example_store_input
  show ?thesis by simp
qed


end
